theory Spec2Isabelle
  imports Main "HOL-Library.Word" "HOL-Library.AList" "HOL-Library.Multiset"
begin

section \<open>The webhook logger: data model\<close>

text \<open>
  The program is one Go package: an HTTP server with three endpoints, a registry
  \<^verbatim>\<open>fanOut map[int64]chan string\<close> of subscriber queues, a shared inbound queue
  \<^verbatim>\<open>messages chan string\<close> and the broadcast loop \<^verbatim>\<open>run\<close>. Session identifiers are
  \<^verbatim>\<open>int64\<close>, modelled as 64-bit words read as signed numbers.
\<close>

type_synonym int64 = "64 word"

text \<open>\<^verbatim>\<open>const msgBuffer = 1_000\<close>: the capacity of every channel the program makes.\<close>

definition msgBuffer :: nat where
  "msgBuffer = 1000"

text \<open>
  A suspended or crashed goroutine is a value: \<open>Done\<close> is a call that returned,
  \<open>Blocked\<close> one that has not returned, in the state given: it is suspended (on a full or
  empty channel, or on the mutex) or, for the stream handler, it stands in its loop;
  \<open>Panicked\<close> is a send on a closed channel.
\<close>

datatype 'a outcome = Done 'a | Blocked 'a | Panicked 'a

fun state_of :: "'a outcome \<Rightarrow> 'a" where
  "state_of (Done x) = x"
| "state_of (Blocked x) = x"
| "state_of (Panicked x) = x"

text \<open>
  A subscriber queue \<^verbatim>\<open>make(chan string, msgBuffer)\<close>: its buffered messages, oldest first,
  and whether \<^verbatim>\<open>close\<close> was called on it. Channels are references, so they live in a store
  (\<open>heap\<close>, addressed by position) and the registry holds addresses.
\<close>

record chan =
  buf :: "string list"
  closed :: bool

text \<open>
  The \<^verbatim>\<open>server\<close> struct. \<open>messages\<close> is the buffer of the inbound channel, which is made
  once at start-up and never closed. \<open>fanOut\<close> is the map as an association list (its order
  is the order in which \<^verbatim>\<open>range\<close> visits the entries, which Go leaves unspecified);
  \<open>mu\<close> tells whether the mutex is held. \<open>runners\<close> are the goroutines started by
  \<^verbatim>\<open>go s.run()\<close>, each with the message it has received and not yet fanned out.
\<close>

record server =
  bearer :: string
  messages :: "string list"
  fanOut :: "(int64 \<times> nat) list"
  heap :: "chan list"
  mu :: bool
  runners :: "string option list"

text \<open>The server value built by \<^verbatim>\<open>run\<close> in \<^verbatim>\<open>main\<close>, before any request.\<close>

definition new_server :: "string \<Rightarrow> server" where
  "new_server b =
     \<lparr>bearer = b, messages = [], fanOut = [], heap = [], mu = False, runners = []\<rparr>"

subsection \<open>Requests, responses and the upgraded connection\<close>

datatype http_error = ErrNoCookie | ErrOther

datatype push_error = NextWriterErr | CopyErr | CloseErr

text \<open>
  The websocket connection is the environment: \<open>script\<close> gives the result of each
  successive \<^verbatim>\<open>push\<close> (\<open>None\<close> is success; past its end every push succeeds), \<open>frames\<close> are the
  text frames written so far.
\<close>

record conn =
  script :: "push_error option list"
  frames :: "string list"
  conn_closed :: bool

text \<open>
  The locals \<^verbatim>\<open>idx\<close>, \<^verbatim>\<open>ch\<close> and \<^verbatim>\<open>conn\<close> of \<^verbatim>\<open>logOutput\<close> once it has upgraded the connection.
  The handler keeps the channel it got from \<^verbatim>\<open>getListener\<close>, whatever the registry holds
  under \<open>st_idx\<close> later.
\<close>

record stream =
  st_idx :: int64
  st_ch :: nat
  st_conn :: conn

text \<open>
  How \<^verbatim>\<open>upgrader.Upgrade\<close> fails: it answers the request itself with an error status and
  leaves the connection to \<^verbatim>\<open>net/http\<close> (\<open>Refused\<close>), or it has taken the connection over
  already and closes it without a reply (\<open>Broken\<close>).
\<close>

datatype upgrade_error = Refused nat | Broken

text \<open>
  What the handlers read from \<^verbatim>\<open>*http.Request\<close>: \<open>authorization\<close> is
  \<^verbatim>\<open>r.Header.Get("Authorization")\<close> (empty when absent), \<open>cookie_idx\<close> the result of
  \<^verbatim>\<open>r.Cookie("idx")\<close>, \<open>body\<close> the bytes \<^verbatim>\<open>io.Copy\<close> reads from \<^verbatim>\<open>r.Body\<close> (\<open>None\<close> when
  it fails), \<open>upgrade\<close> the result of \<^verbatim>\<open>upgrader.Upgrade\<close>.
\<close>

record request =
  Method :: string
  path :: string
  authorization :: string
  cookie_idx :: "http_error + string"
  body :: "string option"
  upgrade :: "upgrade_error + conn"

text \<open>
  What \<^verbatim>\<open>net/http\<close> sends after the header: nothing, the page, or, once the connection has
  been taken over from it, no reply at all (\<open>NoReply\<close>).
\<close>

datatype payload = NoBody | IndexHtml | NoReply

text \<open>
  The response as the handler leaves it; \<open>ws\<close> holds the locals of the stream handler that
  has taken the connection over.
\<close>

record resp =
  status :: "nat option"
  set_cookie :: "string option"
  content_type :: "string option"
  written :: payload
  ws :: "stream option"

definition w0 :: resp where
  "w0 = \<lparr>status = None, set_cookie = None, content_type = None, written = NoBody, ws = None\<rparr>"

text \<open>
  \<^verbatim>\<open>w.WriteHeader(code)\<close>: only the first call sets the status, and none does once the
  connection has been taken over.
\<close>

definition WriteHeader :: "nat \<Rightarrow> resp \<Rightarrow> resp" where
  "WriteHeader c w =
     (if status w = None \<and> written w \<noteq> NoReply then w\<lparr>status := Some c\<rparr> else w)"

text \<open>
  The status the client sees in a reply of \<^verbatim>\<open>net/http\<close> (\<open>written w \<noteq> NoReply\<close>): 200 when
  the handler wrote none.
\<close>

definition status_code :: "resp \<Rightarrow> nat" where
  "status_code w = (case status w of None \<Rightarrow> 200 | Some c \<Rightarrow> c)"

section \<open>Library functions the handlers call\<close>

subsection \<open>\<^verbatim>\<open>strconv.ParseInt(s, 10, 64)\<close> and \<^verbatim>\<open>fmt.Sprint\<close> of an \<^verbatim>\<open>int64\<close>\<close>

datatype num_error = ErrSyntax | ErrRange

definition is_digit :: "char \<Rightarrow> bool" where
  "is_digit c = (c \<in> set ''0123456789'')"

text \<open>The value of a digit string read left to right, starting from \<open>acc\<close>.\<close>

fun digits_val :: "nat \<Rightarrow> string \<Rightarrow> nat" where
  "digits_val acc [] = acc"
| "digits_val acc (c # cs) = digits_val (10 * acc + ((of_char c :: nat) - 48)) cs"

text \<open>
  \<^verbatim>\<open>ParseUint(s, 10, 64)\<close>: base 10 is given explicitly, so there is no prefix and no
  underscore; an empty string or a non-digit is a syntax error, a value above
  \<open>2^64 - 1\<close> a range error.
\<close>

definition ParseUint :: "string \<Rightarrow> num_error + nat" where
  "ParseUint s =
     (if s = [] then Inl ErrSyntax
      else if \<not> list_all is_digit s then Inl ErrSyntax
      else if digits_val 0 s \<ge> 2 ^ 64 then Inl ErrRange
      else Inr (digits_val 0 s))"

text \<open>
  \<^verbatim>\<open>ParseInt\<close>: picks off one leading sign, converts the rest unsigned and checks it against
  the cutoff \<open>2^63\<close>.
\<close>

definition ParseInt :: "string \<Rightarrow> num_error + int64" where
  "ParseInt s =
     (if s = [] then Inl ErrSyntax
      else
        let neg = (hd s = CHR ''-'');
            s1 = (if hd s = CHR ''+'' \<or> hd s = CHR ''-'' then tl s else s)
        in case ParseUint s1 of
             Inl e \<Rightarrow> Inl e
           | Inr un \<Rightarrow>
               if \<not> neg \<and> un \<ge> 2 ^ 63 then Inl ErrRange
               else if neg \<and> un > 2 ^ 63 then Inl ErrRange
               else Inr (if neg then - (of_nat un) else of_nat un))"

text \<open>The decimal digits of a natural number, and \<^verbatim>\<open>fmt.Sprint(idx)\<close> for a signed value.\<close>

fun digits_of :: "nat \<Rightarrow> string" where
  "digits_of n =
     (if n < 10 then [''0123456789'' ! n]
      else digits_of (n div 10) @ [''0123456789'' ! (n mod 10)])"

definition Sprint :: "int64 \<Rightarrow> string" where
  "Sprint i =
     (if sint i < 0 then CHR ''-'' # digits_of (nat (- sint i)) else digits_of (nat (sint i)))"

subsection \<open>\<^verbatim>\<open>strings.SplitN\<close> with a one-byte separator and \<^verbatim>\<open>strings.ToLower\<close>\<close>

text \<open>
  \<^verbatim>\<open>SplitN(s, sep, n)\<close>: no substring for \<open>n = 0\<close>, at most \<open>n\<close> substrings otherwise, the
  last one the unsplit remainder. (A negative \<open>n\<close>, all substrings, is not used.)
\<close>

fun SplitN :: "string \<Rightarrow> char \<Rightarrow> nat \<Rightarrow> string list" where
  "SplitN s sep 0 = []"
| "SplitN s sep (Suc 0) = [s]"
| "SplitN s sep (Suc (Suc n)) =
     (if sep \<in> set s
      then takeWhile (\<lambda>c. c \<noteq> sep) s # SplitN (tl (dropWhile (\<lambda>c. c \<noteq> sep) s)) sep (Suc n)
      else [s])"

text \<open>
  \<^verbatim>\<open>strings.ToLower\<close> on the ASCII letters. Go also lowers letters beyond ASCII; none of
  them becomes a letter of \<^verbatim>\<open>bearer\<close>, the only string the result is compared with.
\<close>

definition lower_char :: "char \<Rightarrow> char" where
  "lower_char c =
     (case map_of (zip ''ABCDEFGHIJKLMNOPQRSTUVWXYZ'' ''abcdefghijklmnopqrstuvwxyz'') c of
        Some l \<Rightarrow> l
      | None \<Rightarrow> c)"

definition ToLower :: "string \<Rightarrow> string" where
  "ToLower s = map lower_char s"

section \<open>The listener registry\<close>

text \<open>
  \<^verbatim>\<open>addListener\<close>: under the mutex, reads the clock (\<open>now\<close> is \<^verbatim>\<open>time.Now().UnixNano()\<close>),
  makes a channel and stores it under that key, overwriting whatever the key held.
\<close>

definition addListener :: "int64 \<Rightarrow> server \<Rightarrow> ((int64 \<times> nat) \<times> server) outcome" where
  "addListener now s =
     (if mu s then Blocked ((0, 0), s)
      else
        let idx = now;
            ch = length (heap s)
        in Done ((idx, ch),
                 s\<lparr>heap := heap s @ [\<lparr>buf = [], closed = False\<rparr>],
                   fanOut := AList.update idx ch (fanOut s)\<rparr>))"

text \<open>\<^verbatim>\<open>getListener\<close>: \<^verbatim>\<open>s.fanOut[idx]\<close> under the mutex; \<open>None\<close> is the nil channel.\<close>

definition getListener :: "int64 \<Rightarrow> server \<Rightarrow> (nat option \<times> server) outcome" where
  "getListener idx s =
     (if mu s then Blocked (None, s) else Done (map_of (fanOut s) idx, s))"

text \<open>\<^verbatim>\<open>removeListener\<close>: \<^verbatim>\<open>delete(s.fanOut, idx)\<close> under the mutex.\<close>

definition removeListener :: "int64 \<Rightarrow> server \<Rightarrow> server outcome" where
  "removeListener idx s =
     (if mu s then Blocked s else Done (s\<lparr>fanOut := AList.delete idx (fanOut s)\<rparr>))"

text \<open>
  \<^verbatim>\<open>parseCookie\<close>: 0 for a nil cookie and for a value \<^verbatim>\<open>ParseInt\<close> rejects.
\<close>

definition parseCookie :: "string option \<Rightarrow> int64" where
  "parseCookie cookie =
     (case cookie of
        None \<Rightarrow> 0
      | Some v \<Rightarrow> (case ParseInt v of Inl err \<Rightarrow> 0 | Inr idx \<Rightarrow> idx))"

section \<open>The broadcast loop\<close>

text \<open>
  \<^verbatim>\<open>ch <- msg\<close> on the channel at address \<open>ch\<close>: panics when the channel is closed, appends
  when the buffer has room, suspends the sender otherwise. An address the store does not
  have stands for the nil channel, on which a send waits for ever; the registry never holds
  one (\<open>wf_registry\<close> below).
\<close>

definition send :: "nat \<Rightarrow> string \<Rightarrow> chan list \<Rightarrow> chan list outcome" where
  "send ch msg h =
     (if ch < length h then
        (if closed (h ! ch) then Panicked h
         else if length (buf (h ! ch)) < msgBuffer
           then Done (h[ch := (h ! ch)\<lparr>buf := buf (h ! ch) @ [msg]\<rparr>])
         else Blocked h)
      else Blocked h)"

text \<open>
  \<^verbatim>\<open>msg, ok := <-ch\<close>, as \<^verbatim>\<open>range ch\<close> does it: the oldest buffered message when there is one;
  \<open>None\<close> when the channel is empty and closed; suspended when it is empty and open (or
  nil).
\<close>

definition recv :: "nat \<Rightarrow> chan list \<Rightarrow> (string option \<times> chan list) outcome" where
  "recv ch h =
     (if ch < length h then
        (case buf (h ! ch) of
           msg # ms \<Rightarrow> Done (Some msg, h[ch := (h ! ch)\<lparr>buf := ms\<rparr>])
         | [] \<Rightarrow> if closed (h ! ch) then Done (None, h) else Blocked (None, h))
      else Blocked (None, h))"

text \<open>\<^verbatim>\<open>for idx, ch := range s.fanOut { ch <- msg }\<close>\<close>

fun sends :: "(int64 \<times> nat) list \<Rightarrow> string \<Rightarrow> chan list \<Rightarrow> chan list outcome" where
  "sends [] msg h = Done h"
| "sends ((idx, ch) # rest) msg h =
     (case send ch msg h of
        Done h' \<Rightarrow> sends rest msg h'
      | Blocked h' \<Rightarrow> Blocked h'
      | Panicked h' \<Rightarrow> Panicked h')"

text \<open>
  The body of the \<^verbatim>\<open>select\<close> case for one received message: lock, fan out, unlock. A
  sender that suspends or panics inside the loop still holds the mutex.
\<close>

definition fanout :: "string \<Rightarrow> server \<Rightarrow> server outcome" where
  "fanout msg s =
     (if mu s then Blocked s
      else case sends (fanOut s) msg (heap s) of
             Done h \<Rightarrow> Done (s\<lparr>heap := h\<rparr>)
           | Blocked h \<Rightarrow> Blocked (s\<lparr>heap := h, mu := True\<rparr>)
           | Panicked h \<Rightarrow> Panicked (s\<lparr>heap := h, mu := True\<rparr>))"

text \<open>
  \<^verbatim>\<open>run\<close>, executed by one goroutine with nothing interleaved: the loop never returns, so
  its result is the state in which it suspends (on the empty inbound queue, or inside a
  fan-out) or panics.
\<close>

function run :: "server \<Rightarrow> server outcome" where
  "run s =
     (case messages s of
        [] \<Rightarrow> Blocked s
      | msg # ms \<Rightarrow>
          (case fanout msg (s\<lparr>messages := ms\<rparr>) of
             Done s' \<Rightarrow> run s'
           | Blocked s' \<Rightarrow> Blocked s'
           | Panicked s' \<Rightarrow> Panicked s'))"
  by pat_completeness auto
termination
proof (relation "measure (\<lambda>s. length (messages s))")
  show "wf (measure (\<lambda>s. length (messages s)))" by simp
next
  fix s :: server and msg ms s'
  assume m: "messages s = msg # ms" and f: "fanout msg (s\<lparr>messages := ms\<rparr>) = Done s'"
  have "messages s' = ms"
    using f by (auto simp: fanout_def split: if_splits outcome.splits)
  with m show "(s', s) \<in> measure (\<lambda>s. length (messages s))" by simp
qed

declare run.simps [simp del]

text \<open>
  The goroutines of \<^verbatim>\<open>go s.run()\<close>, one step at a time: runner \<open>i\<close> receives from the inbound
  queue (\<^verbatim>\<open>msg := <-s.messages\<close>), and later fans the message it holds out.
\<close>

definition runner_recv :: "nat \<Rightarrow> server \<Rightarrow> server option" where
  "runner_recv i s =
     (if i < length (runners s) \<and> runners s ! i = None then
        (case messages s of
           [] \<Rightarrow> None
         | msg # ms \<Rightarrow> Some (s\<lparr>messages := ms, runners := (runners s)[i := Some msg]\<rparr>))
      else None)"

definition runner_fanout :: "nat \<Rightarrow> server \<Rightarrow> server outcome" where
  "runner_fanout i s =
     (if i < length (runners s) then
        (case runners s ! i of
           None \<Rightarrow> Blocked s
         | Some msg \<Rightarrow>
             (case fanout msg s of
                Done s' \<Rightarrow> Done (s'\<lparr>runners := (runners s')[i := None]\<rparr>)
              | Blocked s' \<Rightarrow> Blocked s'
              | Panicked s' \<Rightarrow> Panicked s'))
      else Blocked s)"

section \<open>The handlers\<close>

text \<open>
  \<^verbatim>\<open>serveIndex\<close>: a cookie that names no live listener counts as no cookie; then a listener
  is added and its identifier set as the cookie.
\<close>

definition serveIndex :: "int64 \<Rightarrow> server \<Rightarrow> request \<Rightarrow> (resp \<times> server) outcome" where
  "serveIndex now s r =
     (if Method r \<noteq> ''GET'' then Done (WriteHeader 405 w0, s)
      else
        case (case cookie_idx r of
                Inl e \<Rightarrow> Done (Some e, s)
              | Inr v \<Rightarrow>
                  (case getListener (parseCookie (Some v)) s of
                     Done (ch, s1) \<Rightarrow> Done (if ch = None then Some ErrNoCookie else None, s1)
                   | Blocked (ch, s1) \<Rightarrow> Blocked (None, s1)
                   | Panicked (ch, s1) \<Rightarrow> Panicked (None, s1)))
        of
          Blocked (err, s1) \<Rightarrow> Blocked (w0, s1)
        | Panicked (err, s1) \<Rightarrow> Panicked (w0, s1)
        | Done (err, s1) \<Rightarrow>
            let page = (\<lambda>w. (WriteHeader 200 (w\<lparr>content_type := Some ''text/html''\<rparr>))
                              \<lparr>written := IndexHtml\<rparr>)
            in (case err of
                  None \<Rightarrow> Done (page w0, s1)
                | Some ErrNoCookie \<Rightarrow>
                    (case addListener now s1 of
                       Done ((idx, ch), s2) \<Rightarrow>
                         Done (page (w0\<lparr>set_cookie := Some (Sprint idx)\<rparr>), s2)
                     | Blocked (x, s2) \<Rightarrow> Blocked (w0, s2)
                     | Panicked (x, s2) \<Rightarrow> Panicked (w0, s2))
                | Some ErrOther \<Rightarrow> Done (WriteHeader 500 w0, s1)))"

text \<open>
  The check of \<^verbatim>\<open>webhookReceiver\<close> on the \<^verbatim>\<open>Authorization\<close> header, made only when a bearer
  token is configured.
\<close>

definition bearer_rejected :: "string \<Rightarrow> string \<Rightarrow> bool" where
  "bearer_rejected tok auth =
     (let parts = SplitN auth (CHR '' '') 2
      in length parts \<noteq> 2 \<or> ToLower (parts ! 0) \<noteq> ''bearer'' \<or> parts ! 1 \<noteq> tok)"

text \<open>
  \<^verbatim>\<open>webhookReceiver\<close>. The last statement, \<^verbatim>\<open>s.messages <- body.String()\<close>, suspends the
  handler while the inbound queue is full. No status is written on the success path. (The
  revision of the program without the \<^verbatim>\<open>bearer\<close> field is this one with the empty token.)
\<close>

definition webhookReceiver :: "server \<Rightarrow> request \<Rightarrow> (resp \<times> server) outcome" where
  "webhookReceiver s r =
     (if Method r \<noteq> ''POST'' then Done (WriteHeader 405 w0, s)
      else if bearer s \<noteq> [] \<and> bearer_rejected (bearer s) (authorization r)
        then Done (WriteHeader 401 w0, s)
      else case body r of
             None \<Rightarrow> Done (WriteHeader 500 w0, s)
           | Some b \<Rightarrow>
               if length (messages s) < msgBuffer
               then Done (w0, s\<lparr>messages := messages s @ [b]\<rparr>)
               else Blocked (w0, s))"

text \<open>
  \<^verbatim>\<open>push\<close>: one text frame; the environment says at which of its three steps it fails.
\<close>

definition push :: "conn \<Rightarrow> string \<Rightarrow> push_error option \<times> conn" where
  "push c msg =
     (case script c of
        [] \<Rightarrow> (None, c\<lparr>frames := frames c @ [msg]\<rparr>)
      | None # rest \<Rightarrow> (None, c\<lparr>script := rest, frames := frames c @ [msg]\<rparr>)
      | Some e # rest \<Rightarrow> (Some e, c\<lparr>script := rest\<rparr>))"

text \<open>
  \<^verbatim>\<open>logOutput\<close> up to its loop. An identifier 0 counts as no cookie. When \<^verbatim>\<open>Upgrade\<close> fails
  the handler calls \<^verbatim>\<open>WriteHeader(500)\<close>, which changes nothing: \<^verbatim>\<open>Upgrade\<close> has replied
  already or has taken the connection over. Once the connection is upgraded the handler has
  not returned: it goes on with the locals in \<open>ws\<close>, by \<open>handler_step\<close> below, while other
  goroutines run.
\<close>

definition logOutput :: "server \<Rightarrow> request \<Rightarrow> (resp \<times> server) outcome" where
  "logOutput s r =
     (if Method r \<noteq> ''GET'' then Done (WriteHeader 405 w0, s)
      else
        let (idx, err) =
              (case cookie_idx r of
                 Inl e \<Rightarrow> (0, Some e)
               | Inr v \<Rightarrow>
                   (let i = parseCookie (Some v)
                    in (i, if i = 0 then Some ErrNoCookie else None)))
        in case err of
             Some ErrNoCookie \<Rightarrow> Done (WriteHeader 401 w0, s)
           | Some ErrOther \<Rightarrow> Done (WriteHeader 500 w0, s)
           | None \<Rightarrow>
               (case getListener idx s of
                  Blocked (x, s1) \<Rightarrow> Blocked (w0, s1)
                | Panicked (x, s1) \<Rightarrow> Panicked (w0, s1)
                | Done (None, s1) \<Rightarrow> Done (WriteHeader 400 w0, s1)
                | Done (Some ch, s1) \<Rightarrow>
                    (case upgrade r of
                       Inl (Refused st) \<Rightarrow> Done (WriteHeader 500 (w0\<lparr>status := Some st\<rparr>), s1)
                     | Inl Broken \<Rightarrow> Done (WriteHeader 500 (w0\<lparr>written := NoReply\<rparr>), s1)
                     | Inr c \<Rightarrow>
                         Blocked (w0\<lparr>written := NoReply,
                                     ws := Some \<lparr>st_idx = idx, st_ch = ch, st_conn = c\<rparr>\<rparr>, s1))))"

text \<open>
  One pass through \<^verbatim>\<open>for msg := range ch { if err := s.push(conn, msg); err != nil { break } }\<close>,
  in the state the server is in at that moment: the receive, then the push. The first
  component tells whether the loop is left (the channel closed and drained, or the push
  failed, which is how a client that has gone shows).
\<close>

definition logOutput_loop :: "stream \<Rightarrow> server \<Rightarrow> (bool \<times> stream \<times> server) outcome" where
  "logOutput_loop st s =
     (case recv (st_ch st) (heap s) of
        Blocked x \<Rightarrow> Blocked (False, st, s)
      | Panicked x \<Rightarrow> Panicked (False, st, s)
      | Done (None, h) \<Rightarrow> Done (True, st, s)
      | Done (Some msg, h) \<Rightarrow>
          (case push (st_conn st) msg of
             (None, c) \<Rightarrow> Done (False, st\<lparr>st_conn := c\<rparr>, s\<lparr>heap := h\<rparr>)
           | (Some e, c) \<Rightarrow> Done (True, st\<lparr>st_conn := c\<rparr>, s\<lparr>heap := h\<rparr>)))"

text \<open>
  The deferred function, \<^verbatim>\<open>conn.Close(); s.removeListener(idx)\<close>, in the state the server is in
  when it runs: the connection is closed first, then \<^verbatim>\<open>removeListener\<close> takes the mutex, on
  which it may have to wait.
\<close>

definition logOutput_deferred :: "stream \<Rightarrow> server \<Rightarrow> (stream \<times> server) outcome" where
  "logOutput_deferred st s =
     (let st' = st\<lparr>st_conn := (st_conn st)\<lparr>conn_closed := True\<rparr>\<rparr>
      in case removeListener (st_idx st) s of
           Done s' \<Rightarrow> Done (st', s')
         | Blocked s' \<Rightarrow> Blocked (st', s')
         | Panicked s' \<Rightarrow> Panicked (st', s'))"

text \<open>
  The handler after the upgrade: in its loop, past the loop with the deferred function to
  run, or returned. A step is one pass through the loop or the deferred function; between
  two steps any other goroutine may run, so each step is given the server as it is then.
\<close>

datatype handler = InLoop stream | Leaving stream | Returned stream

fun locals :: "handler \<Rightarrow> stream" where
  "locals (InLoop st) = st"
| "locals (Leaving st) = st"
| "locals (Returned st) = st"

definition handler_step :: "handler \<Rightarrow> server \<Rightarrow> (handler \<times> server) outcome" where
  "handler_step hr s =
     (case hr of
        InLoop st \<Rightarrow>
          (case logOutput_loop st s of
             Done (left, st', s') \<Rightarrow> Done (if left then Leaving st' else InLoop st', s')
           | Blocked (left, st', s') \<Rightarrow> Blocked (InLoop st', s')
           | Panicked (left, st', s') \<Rightarrow> Panicked (InLoop st', s'))
      | Leaving st \<Rightarrow>
          (case logOutput_deferred st s of
             Done (st', s') \<Rightarrow> Done (Returned st', s')
           | Blocked (st', s') \<Rightarrow> Blocked (Leaving st', s')
           | Panicked (st', s') \<Rightarrow> Panicked (Leaving st', s'))
      | Returned st \<Rightarrow> Done (Returned st, s))"


text \<open>
  \<^verbatim>\<open>ServeHTTP\<close>: starts one more goroutine running \<^verbatim>\<open>run\<close>, then dispatches on the path.
  Any other path falls through the \<^verbatim>\<open>switch\<close>.
\<close>

definition ServeHTTP :: "int64 \<Rightarrow> server \<Rightarrow> request \<Rightarrow> (resp \<times> server) outcome" where
  "ServeHTTP now s r =
     (let s1 = s\<lparr>runners := runners s @ [None]\<rparr>
      in if path r = ''/'' then serveIndex now s1 r
         else if path r = ''/logs'' then logOutput s1 r
         else if path r = ''/webhook'' then webhookReceiver s1 r
         else Done (w0, s1))"

section \<open>The header format of the specification\<close>

text \<open>
  The header the specification asks for: a scheme word that is \<^verbatim>\<open>bearer\<close> up to case, one
  space, and the configured token.
\<close>

definition is_bearer_header :: "string \<Rightarrow> string \<Rightarrow> bool" where
  "is_bearer_header tok auth =
     (ToLower (take 6 auth) = ''bearer'' \<and> drop 6 auth = CHR '' '' # tok)"

section \<open>The registry invariant, stated\<close>

text \<open>
  The registry as the program keeps it: a map (no key twice), every channel the value of one
  key only, allocated and open. \<^verbatim>\<open>addListener\<close> is the only writer of values and makes a
  new channel each time; no statement of the program closes a channel.
\<close>

definition wf_registry :: "server \<Rightarrow> bool" where
  "wf_registry s =
     (distinct (map fst (fanOut s)) \<and> distinct (map snd (fanOut s)) \<and>
      list_all (\<lambda>(idx, ch). ch < length (heap s) \<and> \<not> closed (heap s ! ch)) (fanOut s))"

section \<open>Interleaved executions\<close>

text \<open>
  The goroutines that touch the queues, one step at a time. \<open>Post b\<close> is the send that
  ends \<^verbatim>\<open>webhookReceiver\<close>; \<open>Recv i\<close> and \<open>Fan i\<close> are the receive and the fan-out of the
  \<open>i\<close>-th goroutine running \<^verbatim>\<open>run\<close>; \<open>Take idx\<close> is the receive of one pass through the loop
  of the stream handler of listener \<open>idx\<close>. A step that would suspend its goroutine is not
  enabled (\<open>None\<close>). The fan-out is one step: it holds the mutex throughout, and a \<open>Take\<close>
  during it is a \<open>Take\<close> before or after it. A step gives what it did to the queues: the
  message a runner fanned out, the message handed to a stream handler.
\<close>

datatype event = Post string | Recv nat | Fan nat | Take int64

datatype obs = Fanned nat string | Handed int64 string

definition step :: "event \<Rightarrow> server \<Rightarrow> (server \<times> obs list) option" where
  "step e s =
     (case e of
        Post b \<Rightarrow>
          if length (messages s) < msgBuffer then Some (s\<lparr>messages := messages s @ [b]\<rparr>, [])
          else None
      | Recv i \<Rightarrow> (case runner_recv i s of None \<Rightarrow> None | Some s' \<Rightarrow> Some (s', []))
      | Fan i \<Rightarrow>
          (if i < length (runners s) then
             (case runners s ! i of
                None \<Rightarrow> None
              | Some msg \<Rightarrow>
                  (case runner_fanout i s of
                     Done s' \<Rightarrow> Some (s', [Fanned i msg])
                   | Blocked s' \<Rightarrow> None
                   | Panicked s' \<Rightarrow> None))
           else None)
      | Take idx \<Rightarrow>
          (case map_of (fanOut s) idx of
             None \<Rightarrow> None
           | Some ch \<Rightarrow>
               (case recv ch (heap s) of
                  Done (Some msg, h) \<Rightarrow> Some (s\<lparr>heap := h\<rparr>, [Handed idx msg])
                | Done (None, h) \<Rightarrow> None
                | Blocked x \<Rightarrow> None
                | Panicked x \<Rightarrow> None)))"

fun exec :: "event list \<Rightarrow> server \<Rightarrow> (server \<times> obs list) option" where
  "exec [] s = Some (s, [])"
| "exec (e # es) s =
     (case step e s of
        None \<Rightarrow> None
      | Some (s1, out1) \<Rightarrow>
          (case exec es s1 of
             None \<Rightarrow> None
           | Some (s2, out2) \<Rightarrow> Some (s2, out1 @ out2)))"

text \<open>
  The messages published in a run of events; the messages fanned out, in the order of the
  fan-outs; and those handed to one listener's handler.
\<close>

fun posted :: "event list \<Rightarrow> string list" where
  "posted [] = []"
| "posted (Post b # es) = b # posted es"
| "posted (e # es) = posted es"

fun fanned :: "obs list \<Rightarrow> string list" where
  "fanned [] = []"
| "fanned (Fanned i msg # os) = msg # fanned os"
| "fanned (Handed idx msg # os) = fanned os"

fun taken :: "obs list \<Rightarrow> int64 \<Rightarrow> string list" where
  "taken [] idx = []"
| "taken (Handed i msg # os) idx = (if i = idx then msg # taken os idx else taken os idx)"
| "taken (Fanned i msg # os) idx = taken os idx"

text \<open>An event that is not a step of a runner other than \<open>i\<close>.\<close>

fun by_runner :: "nat \<Rightarrow> event \<Rightarrow> bool" where
  "by_runner i (Recv j) = (j = i)"
| "by_runner i (Fan j) = (j = i)"
| "by_runner i e = True"

text \<open>
  The message runner \<open>i\<close> has received and not yet fanned out, as a list, and the messages
  that the runners hold between them.
\<close>

definition held :: "server \<Rightarrow> nat \<Rightarrow> string list" where
  "held s i = (case runners s ! i of None \<Rightarrow> [] | Some msg \<Rightarrow> [msg])"

fun held_msgs :: "string option list \<Rightarrow> string list" where
  "held_msgs [] = []"
| "held_msgs (None # rs) = held_msgs rs"
| "held_msgs (Some msg # rs) = msg # held_msgs rs"

text \<open>
  What links the start \<open>s\<close> to a later state \<open>t\<close>, reached with the posts \<open>ps\<close> and the
  output \<open>out\<close>: every queue has been given exactly the messages fanned out, in the order of
  the fan-outs; and the messages fanned out, those the runners hold and those in the inbound
  queue are, each as often as it occurs, the ones held or queued at the start and the ones
  published since.
\<close>

definition delivered_upto :: "server \<Rightarrow> string list \<Rightarrow> server \<Rightarrow> obs list \<Rightarrow> bool" where
  "delivered_upto s ps t out =
     (wf_registry t \<and> \<not> mu t \<and> fanOut t = fanOut s \<and>
      list_all (\<lambda>(idx, ch). taken out idx @ buf (heap t ! ch) = buf (heap s ! ch) @ fanned out)
        (fanOut s) \<and>
      mset (fanned out) + mset (held_msgs (runners t)) + mset (messages t)
        = mset (held_msgs (runners s)) + mset (messages s) + mset ps)"

text \<open>
  With one runner \<open>i\<close> at work: the messages fanned out, then the one it holds, then the
  inbound queue are the published messages in the order they were published.
\<close>

definition in_publish_order :: "nat \<Rightarrow> server \<Rightarrow> string list \<Rightarrow> server \<Rightarrow> obs list \<Rightarrow> bool" where
  "in_publish_order i s ps t out =
     (i < length (runners t) \<and>
      fanned out @ held t i @ messages t = held s i @ messages s @ ps)"

section \<open>Example states and requests\<close>

definition one_listener :: server where
  "one_listener =
     \<lparr>bearer = [], messages = [], fanOut = [(5, 0)],
      heap = [\<lparr>buf = [''x'', ''y'', ''z''], closed = False\<rparr>], mu = False, runners = []\<rparr>"

definition two_listeners :: server where
  "two_listeners =
     \<lparr>bearer = [], messages = [''a'', ''b''], fanOut = [(5, 0), (7, 1)],
      heap = [\<lparr>buf = [''x''], closed = False\<rparr>, \<lparr>buf = [], closed = False\<rparr>],
      mu = False, runners = [None]\<rparr>"

text \<open>A listener nobody reads from, its queue at capacity.\<close>

definition full_listener :: server where
  "full_listener =
     \<lparr>bearer = [], messages = [], fanOut = [(5, 0)],
      heap = [\<lparr>buf = replicate 1000 ''q'', closed = False\<rparr>], mu = False, runners = []\<rparr>"

text \<open>Two goroutines running \<^verbatim>\<open>run\<close>, two published messages, one listener.\<close>

definition two_runners :: server where
  "two_runners =
     \<lparr>bearer = [], messages = [''a'', ''b''], fanOut = [(5, 0)],
      heap = [\<lparr>buf = [], closed = False\<rparr>], mu = False, runners = [None, None]\<rparr>"




definition get_index :: request where
  "get_index =
     \<lparr>Method = ''GET'', path = ''/'', authorization = [], cookie_idx = Inl ErrNoCookie,
      body = Some [], upgrade = Inl (Refused 400)\<rparr>"

text \<open>A request for the stream whose connection fails at its second frame.\<close>

definition get_logs :: "string \<Rightarrow> request" where
  "get_logs v =
     \<lparr>Method = ''GET'', path = ''/logs'', authorization = [], cookie_idx = Inr v,
      body = Some [],
      upgrade = Inr \<lparr>script = [None, Some CopyErr], frames = [], conn_closed = False\<rparr>\<rparr>"

definition post_webhook :: "string \<Rightarrow> string \<Rightarrow> request" where
  "post_webhook auth b =
     \<lparr>Method = ''POST'', path = ''/webhook'', authorization = auth,
      cookie_idx = Inl ErrNoCookie, body = Some b, upgrade = Inl (Refused 400)\<rparr>"

section \<open>Basic facts\<close>

lemma status_code_WriteHeader: "status_code (WriteHeader c w0) = c"
  by (simp add: status_code_def WriteHeader_def w0_def)

lemma status_code_w0: "status_code w0 = 200"
  by (simp add: status_code_def w0_def)

lemma length_update:
  "length (AList.update k v al) = (if k \<in> fst ` set al then length al else Suc (length al))"
  by (induction al) auto

lemma snd_unique:
  assumes "distinct (map snd al)" and "(k1, c) \<in> set al" and "(k2, c) \<in> set al"
  shows "k1 = k2"
proof -
  have "inj_on snd (set al)" using assms(1) by (simp add: distinct_map)
  from inj_onD [OF this _ assms(2,3)] show ?thesis by simp
qed

lemma closed_buf_update:
  "a < length h \<Longrightarrow> closed (h[ch := (h ! ch)\<lparr>buf := b\<rparr>] ! a) = closed (h ! a)"
  by (cases "a = ch") simp_all

lemma runner_recv_room:
  assumes "runner_recv i s = Some s1" and "length (messages s) \<le> msgBuffer"
  shows "length (messages s1) < msgBuffer" and "bearer s1 = bearer s"
  using assms by (auto simp: runner_recv_def split: if_splits list.splits)

lemma runners_webhookReceiver: "runners (snd (state_of (webhookReceiver s r))) = runners s"
  by (simp add: webhookReceiver_def split: option.splits)

lemma runners_serveIndex: "runners (snd (state_of (serveIndex now s r))) = runners s"
  by (auto simp: serveIndex_def getListener_def addListener_def Let_def
      split: sum.splits option.splits http_error.splits)

lemma logOutput_state: "snd (state_of (logOutput s r)) = s"
  by (auto simp: logOutput_def getListener_def Let_def
      split: sum.splits option.splits http_error.splits upgrade_error.splits)

lemma runners_logOutput: "runners (snd (state_of (logOutput s r))) = runners s"
  by (simp add: logOutput_state)

section \<open>The bearer check\<close>

lemma SplitN_2:
  "SplitN s sep 2 =
     (if sep \<in> set s
      then [takeWhile (\<lambda>c. c \<noteq> sep) s, tl (dropWhile (\<lambda>c. c \<noteq> sep) s)] else [s])"
  by (simp add: numeral_2_eq_2)

lemma lower_char_space: "lower_char c = CHR '' '' \<longleftrightarrow> c = CHR '' ''"
proof (cases "map_of (zip ''ABCDEFGHIJKLMNOPQRSTUVWXYZ'' ''abcdefghijklmnopqrstuvwxyz'') c")
  case None
  then show ?thesis by (simp add: lower_char_def)
next
  case (Some l)
  then have "(c, l) \<in> set (zip ''ABCDEFGHIJKLMNOPQRSTUVWXYZ'' ''abcdefghijklmnopqrstuvwxyz'')"
    by (rule map_of_SomeD)
  then have "c \<in> set ''ABCDEFGHIJKLMNOPQRSTUVWXYZ''" and "l \<in> set ''abcdefghijklmnopqrstuvwxyz''"
    by (rule set_zip_leftD, rule set_zip_rightD)
  then have "c \<noteq> CHR '' ''" and "l \<noteq> CHR '' ''" by auto
  then show ?thesis using Some by (simp add: lower_char_def)
qed

lemma ToLower_no_space:
  assumes "ToLower a = ''bearer''"
  shows "CHR '' '' \<notin> set a" and "length a = 6"
proof -
  have "CHR '' '' \<notin> set (ToLower a)" by (simp add: assms)
  then have "CHR '' '' \<notin> lower_char ` set a" by (simp add: ToLower_def)
  then show "CHR '' '' \<notin> set a" using lower_char_space [of "CHR '' ''"] by (metis imageI)
  have "length (ToLower a) = length a" by (simp add: ToLower_def)
  then show "length a = 6" using assms by simp
qed

lemma bearer_rejected_iff: "bearer_rejected tok auth \<longleftrightarrow> \<not> is_bearer_header tok auth"
proof
  assume rej: "bearer_rejected tok auth"
  show "\<not> is_bearer_header tok auth"
  proof
    assume h: "is_bearer_header tok auth"
    define a where "a = take 6 auth"
    from h have low: "ToLower a = ''bearer''" and dr: "drop 6 auth = CHR '' '' # tok"
      by (simp_all add: is_bearer_header_def a_def)
    have auth: "auth = a @ CHR '' '' # tok"
      using dr append_take_drop_id [of 6 auth] by (simp add: a_def)
    have ns: "\<forall>c\<in>set a. c \<noteq> CHR '' ''" using ToLower_no_space(1) [OF low] by auto
    have tw: "takeWhile (\<lambda>c. c \<noteq> CHR '' '') auth = a"
      using ns by (simp add: auth takeWhile_append2)
    have dw: "dropWhile (\<lambda>c. c \<noteq> CHR '' '') auth = CHR '' '' # tok"
      using ns by (simp add: auth dropWhile_append2)
    have "CHR '' '' \<in> set auth" by (simp add: auth)
    then have "SplitN auth (CHR '' '') 2 = [a, tok]"
      by (simp add: SplitN_2 tw dw)
    then have "\<not> bearer_rejected tok auth"
      using low by (simp add: bearer_rejected_def)
    with rej show False by simp
  qed
next
  assume nh: "\<not> is_bearer_header tok auth"
  show "bearer_rejected tok auth"
  proof (rule ccontr)
    assume nr: "\<not> bearer_rejected tok auth"
    have sp: "CHR '' '' \<in> set auth"
    proof (rule ccontr)
      assume "CHR '' '' \<notin> set auth"
      then have "SplitN auth (CHR '' '') 2 = [auth]" by (simp add: SplitN_2)
      with nr show False by (simp add: bearer_rejected_def)
    qed
    define a where "a = takeWhile (\<lambda>c. c \<noteq> CHR '' '') auth"
    define d where "d = dropWhile (\<lambda>c. c \<noteq> CHR '' '') auth"
    have parts: "SplitN auth (CHR '' '') 2 = [a, tl d]"
      using sp by (simp add: SplitN_2 a_def d_def)
    from nr parts have low: "ToLower a = ''bearer''" and tok: "tl d = tok"
      by (simp_all add: bearer_rejected_def)
    have auth: "auth = a @ d" by (simp add: a_def d_def)
    have "d \<noteq> []" using sp by (auto simp: d_def dropWhile_eq_Nil_conv)
    moreover from this have "hd d = CHR '' ''"
      using hd_dropWhile [of "\<lambda>c. c \<noteq> CHR '' ''" auth] by (simp add: d_def)
    ultimately have d: "d = CHR '' '' # tok" using tok by (cases d) auto
    have "length a = 6" using ToLower_no_space(2) [OF low] .
    then have "take 6 auth = a" "drop 6 auth = d" by (simp_all add: auth)
    then have "is_bearer_header tok auth" using low d by (simp add: is_bearer_header_def)
    with nh show False by simp
  qed
qed

section \<open>The fan-out\<close>

lemma send_length: "length (state_of (send ch msg h)) = length h"
  by (simp add: send_def)

lemma send_other: "a \<noteq> ch \<Longrightarrow> state_of (send ch msg h) ! a = h ! a"
  by (simp add: send_def)

lemma sends_length: "length (state_of (sends al msg h)) = length h"
proof (induction al arbitrary: h)
  case Nil
  then show ?case by simp
next
  case (Cons p al)
  obtain idx ch where p: "p = (idx, ch)" by (cases p)
  show ?case
    using Cons.IH [of "state_of (send ch msg h)"] send_length [of ch msg h]
    by (cases "send ch msg h") (simp_all add: p)
qed

lemma sends_other:
  "a \<notin> snd ` set al \<Longrightarrow> state_of (sends al msg h) ! a = h ! a"
proof (induction al arbitrary: h)
  case Nil
  then show ?case by simp
next
  case (Cons p al)
  obtain idx ch where p: "p = (idx, ch)" by (cases p)
  from Cons.prems have ne: "a \<noteq> ch" and rest: "a \<notin> snd ` set al" by (auto simp: p)
  show ?case
    using Cons.IH [OF rest, of "state_of (send ch msg h)"] send_other [OF ne, of msg h]
    by (cases "send ch msg h") (simp_all add: p)
qed

lemma sends_Done:
  assumes "distinct (map snd al)"
    and "list_all (\<lambda>(idx, ch). ch < length h \<and> \<not> closed (h ! ch) \<and> length (buf (h ! ch)) < msgBuffer) al"
  shows "\<exists>h'. sends al msg h = Done h' \<and> length h' = length h \<and>
           (\<forall>a < length h. h' ! a =
              (if a \<in> snd ` set al then (h ! a)\<lparr>buf := buf (h ! a) @ [msg]\<rparr> else h ! a))"
  using assms
proof (induction al arbitrary: h)
  case Nil
  then show ?case by simp
next
  case (Cons p al)
  obtain idx ch where p: "p = (idx, ch)" by (cases p)
  from Cons.prems have ch: "ch < length h" "\<not> closed (h ! ch)" "length (buf (h ! ch)) < msgBuffer"
    and nin: "ch \<notin> snd ` set al" and dist: "distinct (map snd al)"
    and rest: "list_all (\<lambda>(idx, ch). ch < length h \<and> \<not> closed (h ! ch) \<and> length (buf (h ! ch)) < msgBuffer) al"
    by (auto simp: p)
  define h1 where "h1 = h[ch := (h ! ch)\<lparr>buf := buf (h ! ch) @ [msg]\<rparr>]"
  have snd1: "send ch msg h = Done h1" using ch by (simp add: send_def h1_def)
  have rest1: "list_all (\<lambda>(idx, ch). ch < length h1 \<and> \<not> closed (h1 ! ch) \<and> length (buf (h1 ! ch)) < msgBuffer) al"
    unfolding list_all_iff
  proof (intro ballI)
    fix x assume x: "x \<in> set al"
    obtain i b where xb: "x = (i, b)" by (cases x)
    from x nin have "b \<noteq> ch" by (force simp: xb)
    moreover from rest x have "b < length h \<and> \<not> closed (h ! b) \<and> length (buf (h ! b)) < msgBuffer"
      by (auto simp: list_all_iff xb)
    ultimately show "case x of (idx, ch) \<Rightarrow>
        ch < length h1 \<and> \<not> closed (h1 ! ch) \<and> length (buf (h1 ! ch)) < msgBuffer"
      by (simp add: xb h1_def)
  qed
  from Cons.IH [OF dist rest1] obtain h' where
    h': "sends al msg h1 = Done h'" "length h' = length h1"
      "\<forall>a < length h1. h' ! a = (if a \<in> snd ` set al then (h1 ! a)\<lparr>buf := buf (h1 ! a) @ [msg]\<rparr> else h1 ! a)"
    by blast
  have "sends (p # al) msg h = Done h'" by (simp add: p snd1 h')
  moreover have "length h' = length h" using h'(2) by (simp add: h1_def)
  moreover have "\<forall>a < length h. h' ! a =
      (if a \<in> snd ` set (p # al) then (h ! a)\<lparr>buf := buf (h ! a) @ [msg]\<rparr> else h ! a)"
  proof (intro allI impI)
    fix a assume a: "a < length h"
    then have eq: "h' ! a = (if a \<in> snd ` set al then (h1 ! a)\<lparr>buf := buf (h1 ! a) @ [msg]\<rparr> else h1 ! a)"
      using h'(3) by (simp add: h1_def)
    show "h' ! a = (if a \<in> snd ` set (p # al) then (h ! a)\<lparr>buf := buf (h ! a) @ [msg]\<rparr> else h ! a)"
    proof (cases "a = ch")
      case True
      then show ?thesis using eq nin a by (simp add: p h1_def)
    next
      case False
      then have "h1 ! a = h ! a" by (simp add: h1_def)
      then show ?thesis using eq False by (simp add: p)
    qed
  qed
  ultimately show ?case by blast
qed


lemma fanout_Done:
  assumes "\<not> mu s" and "distinct (map snd (fanOut s))"
    and "list_all (\<lambda>(idx, ch). ch < length (heap s) \<and> \<not> closed (heap s ! ch) \<and>
            length (buf (heap s ! ch)) < msgBuffer) (fanOut s)"
  shows "\<exists>h'. fanout msg s = Done (s\<lparr>heap := h'\<rparr>) \<and> length h' = length (heap s) \<and>
           (\<forall>a < length (heap s). h' ! a =
              (if a \<in> snd ` set (fanOut s) then (heap s ! a)\<lparr>buf := buf (heap s ! a) @ [msg]\<rparr>
               else heap s ! a))"
proof -
  from sends_Done [OF assms(2,3), of msg] obtain h' where
    h': "sends (fanOut s) msg (heap s) = Done h'" "length h' = length (heap s)"
      "\<forall>a < length (heap s). h' ! a =
         (if a \<in> snd ` set (fanOut s) then (heap s ! a)\<lparr>buf := buf (heap s ! a) @ [msg]\<rparr>
          else heap s ! a)"
    by blast
  have "fanout msg s = Done (s\<lparr>heap := h'\<rparr>)"
    using assms(1) h'(1) by (simp add: fanout_def)
  with h'(2,3) show ?thesis by blast
qed

lemma run_delivers:
  assumes "wf_registry s" and "\<not> mu s"
    and "list_all (\<lambda>(idx, ch). length (buf (heap s ! ch)) + length (messages s) \<le> msgBuffer)
           (fanOut s)"
  shows "\<exists>h'. run s = Blocked (s\<lparr>messages := [], heap := h'\<rparr>) \<and> length h' = length (heap s) \<and>
           (\<forall>a < length (heap s). h' ! a =
              (if a \<in> snd ` set (fanOut s)
               then (heap s ! a)\<lparr>buf := buf (heap s ! a) @ messages s\<rparr>
               else heap s ! a))"
  using assms
proof (induction "messages s" arbitrary: s)
  case Nil
  have "run s = Blocked s" using Nil(1) [symmetric] by (simp add: run.simps)
  moreover have "s\<lparr>messages := [], heap := heap s\<rparr> = s" using Nil(1) [symmetric] by simp
  ultimately have "run s = Blocked (s\<lparr>messages := [], heap := heap s\<rparr>)" by simp
  moreover have "\<forall>a < length (heap s). heap s ! a =
      (if a \<in> snd ` set (fanOut s) then (heap s ! a)\<lparr>buf := buf (heap s ! a) @ messages s\<rparr>
       else heap s ! a)"
    using Nil(1) [symmetric] by simp
  ultimately show ?case by blast
next
  case (Cons msg ms)
  note ms = Cons.hyps(2) [symmetric]
  define s0 where "s0 = s\<lparr>messages := ms\<rparr>"
  have wf: "distinct (map snd (fanOut s))"
    "list_all (\<lambda>(idx, ch). ch < length (heap s) \<and> \<not> closed (heap s ! ch)) (fanOut s)"
    using Cons.prems(1) by (simp_all add: wf_registry_def)
  have room0: "list_all (\<lambda>(idx, ch). ch < length (heap s0) \<and> \<not> closed (heap s0 ! ch) \<and>
            length (buf (heap s0 ! ch)) < msgBuffer) (fanOut s0)"
    using wf(2) Cons.prems(3) by (auto simp: list_all_iff s0_def ms)
  have "\<not> mu s0" "distinct (map snd (fanOut s0))"
    using Cons.prems(2) wf(1) by (simp_all add: s0_def)
  from fanout_Done [OF this room0, of msg] obtain h1 where
    h1: "fanout msg s0 = Done (s0\<lparr>heap := h1\<rparr>)" "length h1 = length (heap s)"
      "\<forall>a < length (heap s). h1 ! a =
         (if a \<in> snd ` set (fanOut s) then (heap s ! a)\<lparr>buf := buf (heap s ! a) @ [msg]\<rparr>
          else heap s ! a)"
    by (auto simp: s0_def)
  define s1 where "s1 = s0\<lparr>heap := h1\<rparr>"
  have reg: "\<And>i c. (i, c) \<in> set (fanOut s) \<Longrightarrow>
      c < length (heap s) \<and> h1 ! c = (heap s ! c)\<lparr>buf := buf (heap s ! c) @ [msg]\<rparr>"
  proof -
    fix i c assume ic: "(i, c) \<in> set (fanOut s)"
    then have c: "c < length (heap s)" using wf(2) by (auto simp: list_all_iff)
    moreover have "c \<in> snd ` set (fanOut s)" using ic by force
    ultimately show "c < length (heap s) \<and> h1 ! c = (heap s ! c)\<lparr>buf := buf (heap s ! c) @ [msg]\<rparr>"
      using h1(3) by simp
  qed
  have m1: "ms = messages s1" by (simp add: s1_def s0_def)
  have wf1: "wf_registry s1"
    using Cons.prems(1) reg wf(2) h1(2)
    by (auto simp: wf_registry_def s1_def s0_def list_all_iff)
  have mu1: "\<not> mu s1" using Cons.prems(2) by (simp add: s1_def s0_def)
  have room1: "list_all (\<lambda>(idx, ch). length (buf (heap s1 ! ch)) + length (messages s1) \<le> msgBuffer)
           (fanOut s1)"
    using Cons.prems(3) reg by (auto simp: s1_def s0_def list_all_iff ms)
  from Cons.hyps(1) [OF m1 wf1 mu1 room1] obtain h' where
    h': "run s1 = Blocked (s1\<lparr>messages := [], heap := h'\<rparr>)" "length h' = length (heap s1)"
      "\<forall>a < length (heap s1). h' ! a =
         (if a \<in> snd ` set (fanOut s1)
          then (heap s1 ! a)\<lparr>buf := buf (heap s1 ! a) @ messages s1\<rparr>
          else heap s1 ! a)"
    by blast
  have "run s = run s1"
    using h1(1) by (subst run.simps) (simp add: ms s0_def s1_def)
  then have "run s = Blocked (s\<lparr>messages := [], heap := h'\<rparr>)"
    using h'(1) by (simp add: s1_def s0_def)
  moreover have "length h' = length (heap s)" using h'(2) h1(2) by (simp add: s1_def)
  moreover have "\<forall>a < length (heap s). h' ! a =
      (if a \<in> snd ` set (fanOut s)
       then (heap s ! a)\<lparr>buf := buf (heap s ! a) @ messages s\<rparr>
       else heap s ! a)"
    using h'(3) h1(2,3) by (simp add: s1_def s0_def ms)
  ultimately show ?case by blast
qed

lemma heap_fanout:
  "heap (state_of (fanout msg s)) =
     (if mu s then heap s else state_of (sends (fanOut s) msg (heap s)))"
  by (simp add: fanout_def split: outcome.splits)

lemma run_never_returns: "run s \<noteq> Done t"
proof (induction s rule: run.induct)
  case (1 s)
  show ?case
  proof (cases "messages s")
    case Nil
    then show ?thesis by (simp add: run.simps [of s])
  next
    case (Cons msg ms)
    show ?thesis
    proof (cases "fanout msg (s\<lparr>messages := ms\<rparr>)")
      case (Done s')
      from "1.IH" [OF Cons Done] show ?thesis
        using Cons Done by (simp add: run.simps [of s])
    next
      case (Blocked s')
      then show ?thesis using Cons by (simp add: run.simps [of s])
    next
      case (Panicked s')
      then show ?thesis using Cons by (simp add: run.simps [of s])
    qed
  qed
qed

section \<open>The registry invariant\<close>

text \<open>
  \<open>wf_registry\<close> holds of the server at start-up and is kept by every handler, by the
  broadcast loop and by every step of a runner, so it holds whenever a handler or the loop
  starts.
\<close>

lemma wf_new_server: "wf_registry (new_server b)"
  by (simp add: wf_registry_def new_server_def)

lemma send_closed: "a < length h \<Longrightarrow> closed (state_of (send ch msg h) ! a) = closed (h ! a)"
  by (cases "a = ch") (simp_all add: send_def)

lemma sends_closed:
  "a < length h \<Longrightarrow> closed (state_of (sends al msg h) ! a) = closed (h ! a)"
proof (induction al arbitrary: h)
  case Nil
  then show ?case by simp
next
  case (Cons p al)
  obtain idx ch where p: "p = (idx, ch)" by (cases p)
  have "a < length (state_of (send ch msg h))" using Cons.prems by (simp add: send_length)
  from Cons.IH [OF this] send_closed [OF Cons.prems, of ch msg]
  show ?case by (cases "send ch msg h") (simp_all add: p)
qed

lemma wf_registry_heap:
  assumes "wf_registry s" and "length h = length (heap s)"
    and "\<And>a. a < length (heap s) \<Longrightarrow> closed (h ! a) = closed (heap s ! a)"
  shows "wf_registry (s\<lparr>heap := h\<rparr>)"
  using assms by (auto simp: wf_registry_def list_all_iff)

lemma wf_fanout: "wf_registry s \<Longrightarrow> wf_registry (state_of (fanout msg s))"
proof -
  assume wf: "wf_registry s"
  define h where "h = state_of (sends (fanOut s) msg (heap s))"
  have "wf_registry (s\<lparr>heap := h\<rparr>)"
    using wf by (rule wf_registry_heap) (simp_all add: h_def sends_length sends_closed)
  then have "wf_registry (s\<lparr>heap := h, mu := True\<rparr>)" by (simp add: wf_registry_def)
  with \<open>wf_registry (s\<lparr>heap := h\<rparr>)\<close> wf show ?thesis
    by (auto simp: fanout_def h_def split: outcome.splits)
qed

lemma set_update_subset: "set (AList.update k v al) \<subseteq> insert (k, v) (set al)"
  by (induction al) auto

lemma distinct_snd_update:
  "distinct (map snd al) \<Longrightarrow> v \<notin> snd ` set al \<Longrightarrow> distinct (map snd (AList.update k v al))"
proof (induction al)
  case Nil
  then show ?case by simp
next
  case (Cons p al)
  obtain a b where p: "p = (a, b)" by (cases p)
  show ?case
  proof (cases "a = k")
    case True
    then show ?thesis using Cons.prems by (simp add: p)
  next
    case False
    have "b \<notin> snd ` set (AList.update k v al)"
      using set_update_subset [of k v al] Cons.prems by (auto simp: p)
    then show ?thesis using False Cons by (simp add: p)
  qed
qed

lemma distinct_snd_delete:
  "distinct (map snd al) \<Longrightarrow> distinct (map snd (AList.delete k al))"
  by (simp add: AList.delete_eq distinct_map_filter)

lemma wf_addListener:
  assumes "wf_registry s"
  shows "wf_registry (snd (state_of (addListener now s)))"
proof (cases "mu s")
  case True
  then show ?thesis using assms by (simp add: addListener_def)
next
  case False
  define n where "n = length (heap s)"
  define h where "h = heap s @ [\<lparr>buf = [], closed = False\<rparr>]"
  have old: "\<And>i c. (i, c) \<in> set (fanOut s) \<Longrightarrow> c < n \<and> \<not> closed (heap s ! c)"
    using assms by (auto simp: wf_registry_def list_all_iff n_def)
  then have fresh: "n \<notin> snd ` set (fanOut s)" by force
  have d1: "distinct (map fst (AList.update now n (fanOut s)))"
    using assms by (simp add: wf_registry_def distinct_update)
  have d2: "distinct (map snd (AList.update now n (fanOut s)))"
    using assms fresh by (simp add: wf_registry_def distinct_snd_update)
  have ok: "list_all (\<lambda>(idx, ch). ch < length h \<and> \<not> closed (h ! ch)) (AList.update now n (fanOut s))"
    unfolding list_all_iff
  proof (intro ballI)
    fix x assume "x \<in> set (AList.update now n (fanOut s))"
    then have "x = (now, n) \<or> x \<in> set (fanOut s)" using set_update_subset [of now n "fanOut s"] by auto
    then show "case x of (idx, ch) \<Rightarrow> ch < length h \<and> \<not> closed (h ! ch)"
    proof
      assume "x = (now, n)"
      then show ?thesis by (simp add: h_def n_def)
    next
      assume x: "x \<in> set (fanOut s)"
      obtain i c where xc: "x = (i, c)" by (cases x)
      from old [of i c] x show ?thesis by (simp add: xc h_def n_def nth_append)
    qed
  qed
  show ?thesis
    using False d1 d2 ok by (simp add: addListener_def Let_def wf_registry_def h_def n_def)
qed

lemma wf_removeListener:
  assumes "wf_registry s"
  shows "wf_registry (state_of (removeListener idx s))"
proof (cases "mu s")
  case True
  then show ?thesis using assms by (simp add: removeListener_def)
next
  case False
  have "set (AList.delete idx (fanOut s)) \<subseteq> set (fanOut s)"
    by (auto simp: AList.delete_eq)
  then have "list_all (\<lambda>(idx, ch). ch < length (heap s) \<and> \<not> closed (heap s ! ch))
      (AList.delete idx (fanOut s))"
    using assms unfolding wf_registry_def list_all_iff by blast
  then show ?thesis
    using False assms
    by (simp add: removeListener_def wf_registry_def distinct_delete distinct_snd_delete)
qed

lemma wf_webhookReceiver: "wf_registry s \<Longrightarrow> wf_registry (snd (state_of (webhookReceiver s r)))"
  by (auto simp: webhookReceiver_def wf_registry_def split: option.splits)

lemma wf_serveIndex:
  assumes "wf_registry s"
  shows "wf_registry (snd (state_of (serveIndex now s r)))"
proof -
  have "snd (state_of (serveIndex now s r)) = s \<or>
        snd (state_of (serveIndex now s r)) = snd (state_of (addListener now s))"
    by (auto simp: serveIndex_def getListener_def addListener_def Let_def
        split: sum.splits option.splits http_error.splits)
  then show ?thesis using assms wf_addListener [OF assms, of now] by auto
qed

lemma wf_buf_update:
  assumes "wf_registry s"
  shows "wf_registry (s\<lparr>heap := (heap s)[ch := (heap s ! ch)\<lparr>buf := b\<rparr>]\<rparr>)"
  using assms by (rule wf_registry_heap) (simp_all add: closed_buf_update)

lemma wf_logOutput:
  assumes "wf_registry s"
  shows "wf_registry (snd (state_of (logOutput s r)))"
  using assms by (simp add: logOutput_state)

lemma wf_runners: "wf_registry (s\<lparr>runners := rs\<rparr>) = wf_registry s"
  by (simp add: wf_registry_def)

lemma wf_ServeHTTP:
  "wf_registry s \<Longrightarrow> wf_registry (snd (state_of (ServeHTTP now s r)))"
  by (simp add: ServeHTTP_def Let_def wf_serveIndex wf_logOutput wf_webhookReceiver wf_runners)

lemma wf_runner_recv: "wf_registry s \<Longrightarrow> runner_recv i s = Some s' \<Longrightarrow> wf_registry s'"
  by (auto simp: runner_recv_def wf_registry_def split: if_splits list.splits)

lemma wf_runner_fanout:
  assumes "wf_registry s"
  shows "wf_registry (state_of (runner_fanout i s))"
proof (cases "i < length (runners s)")
  case False
  then show ?thesis using assms by (simp add: runner_fanout_def)
next
  case True
  show ?thesis
  proof (cases "runners s ! i")
    case None
    then show ?thesis using True assms by (simp add: runner_fanout_def)
  next
    case (Some msg)
    from wf_fanout [OF assms, of msg] show ?thesis
      using True Some by (cases "fanout msg s") (simp_all add: runner_fanout_def wf_runners)
  qed
qed


lemma wf_messages: "wf_registry (s\<lparr>messages := ms\<rparr>) = wf_registry s"
  by (simp add: wf_registry_def)

lemma wf_run: "wf_registry s \<Longrightarrow> wf_registry (state_of (run s))"
proof (induction s rule: run.induct)
  case (1 s)
  show ?case
  proof (cases "messages s")
    case Nil
    then show ?thesis using "1.prems" by (simp add: run.simps [of s])
  next
    case (Cons msg ms)
    have wf': "wf_registry (state_of (fanout msg (s\<lparr>messages := ms\<rparr>)))"
      using "1.prems" by (simp add: wf_fanout wf_messages)
    show ?thesis
    proof (cases "fanout msg (s\<lparr>messages := ms\<rparr>)")
      case (Done s')
      with wf' have "wf_registry s'" by simp
      from "1.IH" [OF Cons Done this] show ?thesis
        using Cons Done by (simp add: run.simps [of s])
    next
      case (Blocked s')
      with wf' show ?thesis using Cons by (simp add: run.simps [of s])
    next
      case (Panicked s')
      with wf' show ?thesis using Cons by (simp add: run.simps [of s])
    qed
  qed
qed

section \<open>Identifiers as decimal strings\<close>







section \<open>Interleavings\<close>

text \<open>
  What one step of an interleaving does to the state, and the two properties that every
  step keeps: \<open>delivered_upto\<close>, whichever goroutines take the steps, and
  \<open>in_publish_order\<close>, when a single goroutine runs the loop.
\<close>

lemma posted_append: "posted (es @ fs) = posted es @ posted fs"
  by (induction es rule: posted.induct) simp_all

lemma fanned_append: "fanned (a @ b) = fanned a @ fanned b"
  by (induction a rule: fanned.induct) simp_all

lemma taken_append: "taken (a @ b) idx = taken a idx @ taken b idx"
  by (induction a idx rule: taken.induct) simp_all

lemma held_msgs_recv:
  "i < length rs \<Longrightarrow> rs ! i = None \<Longrightarrow>
     mset (held_msgs (rs[i := Some msg])) = add_mset msg (mset (held_msgs rs))"
proof (induction rs arbitrary: i)
  case Nil
  then show ?case by simp
next
  case (Cons r rs)
  show ?case
  proof (cases i)
    case 0
    then show ?thesis using Cons.prems by simp
  next
    case (Suc j)
    then show ?thesis using Cons by (cases r) simp_all
  qed
qed

lemma held_msgs_fan:
  "i < length rs \<Longrightarrow> rs ! i = Some msg \<Longrightarrow>
     add_mset msg (mset (held_msgs (rs[i := None]))) = mset (held_msgs rs)"
proof (induction rs arbitrary: i)
  case Nil
  then show ?case by simp
next
  case (Cons r rs)
  show ?case
  proof (cases i)
    case 0
    then show ?thesis using Cons.prems by simp
  next
    case (Suc j)
    then show ?thesis using Cons by (cases r) simp_all
  qed
qed

lemma fanout_Done_D:
  assumes "fanout msg t = Done t1"
  shows "\<exists>h'. sends (fanOut t) msg (heap t) = Done h' \<and> t1 = t\<lparr>heap := h'\<rparr>"
  using assms by (auto simp: fanout_def split: if_splits outcome.splits)

lemma recv_Some:
  assumes "recv ch h = Done (Some msg, h')"
  shows "ch < length h \<and> (\<exists>ms. buf (h ! ch) = msg # ms \<and> h' = h[ch := (h ! ch)\<lparr>buf := ms\<rparr>])"
  using assms by (auto simp: recv_def split: if_splits list.splits)

lemma sends_Done_D:
  assumes "sends al msg h = Done h'" and "distinct (map snd al)"
  shows "list_all (\<lambda>(idx, ch). ch < length h \<and> h' ! ch = (h ! ch)\<lparr>buf := buf (h ! ch) @ [msg]\<rparr>) al"
  using assms
proof (induction al arbitrary: h)
  case Nil
  then show ?case by simp
next
  case (Cons p al)
  obtain idx ch where p: "p = (idx, ch)" by (cases p)
  from Cons.prems obtain h1 where s1: "send ch msg h = Done h1" and rest: "sends al msg h1 = Done h'"
    by (auto simp: p split: outcome.splits)
  from s1 have ch: "ch < length h" and h1: "h1 = h[ch := (h ! ch)\<lparr>buf := buf (h ! ch) @ [msg]\<rparr>]"
    by (auto simp: send_def split: if_splits)
  from Cons.prems have nin: "ch \<notin> snd ` set al" and dist: "distinct (map snd al)"
    by (auto simp: p)
  have "h' ! ch = h1 ! ch" using sends_other [OF nin, of msg h1] rest by simp
  then have first: "h' ! ch = (h ! ch)\<lparr>buf := buf (h ! ch) @ [msg]\<rparr>" using ch by (simp add: h1)
  have "list_all (\<lambda>(idx, c). c < length h \<and> h' ! c = (h ! c)\<lparr>buf := buf (h ! c) @ [msg]\<rparr>) al"
    unfolding list_all_iff
  proof (intro ballI)
    fix x assume x: "x \<in> set al"
    obtain j c where xc: "x = (j, c)" by (cases x)
    from x nin have ne: "c \<noteq> ch" by (force simp: xc)
    from Cons.IH [OF rest dist] x
    have "c < length h1 \<and> h' ! c = (h1 ! c)\<lparr>buf := buf (h1 ! c) @ [msg]\<rparr>"
      by (auto simp: list_all_iff xc)
    then show "case x of (idx, c) \<Rightarrow> c < length h \<and> h' ! c = (h ! c)\<lparr>buf := buf (h ! c) @ [msg]\<rparr>"
      using ne by (simp add: xc h1)
  qed
  with ch first show ?case by (simp add: p)
qed

lemma wf_messages_runners:
  "wf_registry (t\<lparr>messages := ms\<rparr>) = wf_registry t"
  "wf_registry (t\<lparr>messages := ms, runners := rs\<rparr>) = wf_registry t"
  by (simp_all add: wf_registry_def)

lemma step_Fan_D:
  assumes "step (Fan j) t = Some (t', out')"
  shows "\<exists>msg h'. j < length (runners t) \<and> runners t ! j = Some msg \<and> \<not> mu t \<and>
           sends (fanOut t) msg (heap t) = Done h' \<and>
           t' = t\<lparr>heap := h', runners := (runners t)[j := None]\<rparr> \<and> out' = [Fanned j msg]"
proof -
  from assms obtain msg t1 where j: "j < length (runners t)" and hm: "runners t ! j = Some msg"
    and f: "fanout msg t = Done t1"
    and t': "t' = t1\<lparr>runners := (runners t1)[j := None]\<rparr>" and o: "out' = [Fanned j msg]"
    by (auto simp: step_def runner_fanout_def split: option.splits if_splits outcome.splits)
  from f have mu: "\<not> mu t" by (auto simp: fanout_def split: if_splits)
  from fanout_Done_D [OF f] obtain h' where "sends (fanOut t) msg (heap t) = Done h'"
    and "t1 = t\<lparr>heap := h'\<rparr>" by blast
  with j hm mu t' o show ?thesis by simp
qed

lemma step_Recv_D:
  assumes "step (Recv j) t = Some (t', out')"
  shows "\<exists>msg ms. j < length (runners t) \<and> runners t ! j = None \<and> messages t = msg # ms \<and>
           t' = t\<lparr>messages := ms, runners := (runners t)[j := Some msg]\<rparr> \<and> out' = []"
  using assms
  by (auto simp: step_def runner_recv_def split: option.splits if_splits list.splits)

lemma step_Take_D:
  assumes "step (Take idx) t = Some (t', out')"
  shows "\<exists>ch msg ms. map_of (fanOut t) idx = Some ch \<and> ch < length (heap t) \<and>
           buf (heap t ! ch) = msg # ms \<and>
           t' = t\<lparr>heap := (heap t)[ch := (heap t ! ch)\<lparr>buf := ms\<rparr>]\<rparr> \<and> out' = [Handed idx msg]"
proof -
  from assms obtain ch msg h where look: "map_of (fanOut t) idx = Some ch"
    and r: "recv ch (heap t) = Done (Some msg, h)" and t': "t' = t\<lparr>heap := h\<rparr>"
    and o: "out' = [Handed idx msg]"
    by (auto simp: step_def split: option.splits outcome.splits)
  from recv_Some [OF r] look t' o show ?thesis by auto
qed

lemma step_Post_D:
  assumes "step (Post b) t = Some (t', out')"
  shows "t' = t\<lparr>messages := messages t @ [b]\<rparr> \<and> out' = []"
  using assms by (auto simp: step_def split: if_splits)

lemma step_keeps:
  assumes inv: "delivered_upto s ps t out" and st: "step e t = Some (t', out')"
  shows "delivered_upto s (ps @ posted [e]) t' (out @ out')"
proof -
  from inv have wf: "wf_registry t" and mu: "\<not> mu t" and reg: "fanOut t = fanOut s"
    and qs: "list_all (\<lambda>(idx, ch). taken out idx @ buf (heap t ! ch) = buf (heap s ! ch) @ fanned out)
               (fanOut s)"
    and ms: "mset (fanned out) + mset (held_msgs (runners t)) + mset (messages t)
               = mset (held_msgs (runners s)) + mset (messages s) + mset ps"
    by (simp_all add: delivered_upto_def)
  show ?thesis
  proof (cases e)
    case (Post b)
    from step_Post_D [OF st [unfolded Post]]
    have t': "t' = t\<lparr>messages := messages t @ [b]\<rparr>" and o: "out' = []" by simp_all
    show ?thesis
      using wf mu reg qs ms
      by (simp add: delivered_upto_def t' o Post wf_messages_runners)
  next
    case (Recv j)
    from step_Recv_D [OF st [unfolded Recv]] obtain msg rest where
      j: "j < length (runners t)" and n: "runners t ! j = None" and m: "messages t = msg # rest"
      and t': "t' = t\<lparr>messages := rest, runners := (runners t)[j := Some msg]\<rparr>" and o: "out' = []"
      by blast
    show ?thesis
      using wf mu reg qs ms held_msgs_recv [OF j n, of msg]
      by (simp add: delivered_upto_def t' o Recv wf_messages_runners m)
  next
    case (Fan j)
    from step_Fan_D [OF st [unfolded Fan]] obtain msg h' where
      j: "j < length (runners t)" and hm: "runners t ! j = Some msg"
      and sd: "sends (fanOut t) msg (heap t) = Done h'"
      and t': "t' = t\<lparr>heap := h', runners := (runners t)[j := None]\<rparr>"
      and o: "out' = [Fanned j msg]"
      by blast
    have d: "distinct (map snd (fanOut t))" using wf by (simp add: wf_registry_def)
    note got = sends_Done_D [OF sd d]
    have "wf_registry (state_of (runner_fanout j t))" using wf by (rule wf_runner_fanout)
    moreover have "runner_fanout j t = Done t'"
      using j hm sd mu by (simp add: runner_fanout_def fanout_def t')
    ultimately have wf': "wf_registry t'" by simp
    have q': "list_all (\<lambda>(idx, ch). taken (out @ out') idx @ buf (heap t' ! ch)
                 = buf (heap s ! ch) @ fanned (out @ out')) (fanOut s)"
      unfolding list_all_iff
    proof (intro ballI)
      fix x assume x: "x \<in> set (fanOut s)"
      obtain k c where xc: "x = (k, c)" by (cases x)
      from got x reg have "h' ! c = (heap t ! c)\<lparr>buf := buf (heap t ! c) @ [msg]\<rparr>"
        by (auto simp: list_all_iff xc)
      moreover from qs x have "taken out k @ buf (heap t ! c) = buf (heap s ! c) @ fanned out"
        by (auto simp: list_all_iff xc)
      ultimately show "case x of (idx, ch) \<Rightarrow> taken (out @ out') idx @ buf (heap t' ! ch)
                 = buf (heap s ! ch) @ fanned (out @ out')"
        by (simp add: xc t' o taken_append fanned_append)
    qed
    have m': "mset (fanned (out @ out')) + mset (held_msgs (runners t')) + mset (messages t')
               = mset (held_msgs (runners s)) + mset (messages s) + mset (ps @ posted [e])"
      using ms unfolding held_msgs_fan [OF j hm, symmetric]
      by (simp add: t' o Fan fanned_append)
    show ?thesis
      using wf' mu reg q' m' by (simp add: delivered_upto_def t')
  next
    case (Take idx)
    from step_Take_D [OF st [unfolded Take]] obtain ch msg rest where
      look: "map_of (fanOut t) idx = Some ch" and c: "ch < length (heap t)"
      and b: "buf (heap t ! ch) = msg # rest"
      and t': "t' = t\<lparr>heap := (heap t)[ch := (heap t ! ch)\<lparr>buf := rest\<rparr>]\<rparr>"
      and o: "out' = [Handed idx msg]"
      by blast
    have mem: "(idx, ch) \<in> set (fanOut t)" using look by (rule map_of_SomeD)
    have d1: "distinct (map fst (fanOut t))" and d2: "distinct (map snd (fanOut t))"
      using wf by (simp_all add: wf_registry_def)
    have wf': "wf_registry t'" using wf_buf_update [OF wf, of ch rest] by (simp add: t')
    have q': "list_all (\<lambda>(k, c). taken (out @ out') k @ buf (heap t' ! c)
                 = buf (heap s ! c) @ fanned (out @ out')) (fanOut s)"
      unfolding list_all_iff
    proof (intro ballI)
      fix x assume x: "x \<in> set (fanOut s)"
      obtain k c' where xc: "x = (k, c')" by (cases x)
      from x reg have kc: "(k, c') \<in> set (fanOut t)" by (simp add: xc)
      from qs x have old: "taken out k @ buf (heap t ! c') = buf (heap s ! c') @ fanned out"
        by (auto simp: list_all_iff xc)
      show "case x of (k, c) \<Rightarrow> taken (out @ out') k @ buf (heap t' ! c)
                 = buf (heap s ! c) @ fanned (out @ out')"
      proof (cases "k = idx")
        case True
        then have "c' = ch" using kc look d1 by (simp add: map_of_is_SomeI)
        then show ?thesis using old b c True by (simp add: xc t' o taken_append fanned_append)
      next
        case False
        then have "c' \<noteq> ch" using kc mem snd_unique [OF d2] by blast
        then show ?thesis using old False by (simp add: xc t' o taken_append fanned_append)
      qed
    qed
    show ?thesis
      using wf' mu reg q' ms by (simp add: delivered_upto_def t' o Take fanned_append)
  qed
qed

lemma step_in_order:
  assumes inv: "in_publish_order i s ps t out" and e: "by_runner i e"
    and st: "step e t = Some (t', out')"
  shows "in_publish_order i s (ps @ posted [e]) t' (out @ out')"
proof (cases e)
  case (Post b)
  from step_Post_D [OF st [unfolded Post]] inv show ?thesis
    by (simp add: in_publish_order_def Post held_def)
next
  case (Recv j)
  with e have j: "j = i" by simp
  from step_Recv_D [OF st [unfolded Recv]] inv show ?thesis
    by (auto simp: in_publish_order_def Recv j held_def)
next
  case (Fan j)
  with e have j: "j = i" by simp
  from step_Fan_D [OF st [unfolded Fan]] inv show ?thesis
    by (auto simp: in_publish_order_def Fan j held_def fanned_append)
next
  case (Take idx)
  from step_Take_D [OF st [unfolded Take]] inv show ?thesis
    by (auto simp: in_publish_order_def Take held_def fanned_append)
qed

lemma exec_keeps:
  assumes "delivered_upto s ps t out" and "exec evs t = Some (t', out')"
  shows "delivered_upto s (ps @ posted evs) t' (out @ out')"
  using assms
proof (induction evs arbitrary: t ps out out')
  case Nil
  then show ?case by simp
next
  case (Cons e evs)
  from Cons.prems(2) obtain t1 o1 o2 where st: "step e t = Some (t1, o1)"
    and ex: "exec evs t1 = Some (t', o2)" and o: "out' = o1 @ o2"
    by (auto split: option.splits)
  from Cons.IH [OF step_keeps [OF Cons.prems(1) st] ex]
  have "delivered_upto s ((ps @ posted [e]) @ posted evs) t' ((out @ o1) @ o2)" .
  moreover have "posted (e # evs) = posted [e] @ posted evs"
    using posted_append [of "[e]" evs] by simp
  ultimately show ?case by (simp add: o)
qed

lemma exec_in_order:
  assumes "in_publish_order i s ps t out" and "list_all (by_runner i) evs"
    and "exec evs t = Some (t', out')"
  shows "in_publish_order i s (ps @ posted evs) t' (out @ out')"
  using assms
proof (induction evs arbitrary: t ps out out')
  case Nil
  then show ?case by simp
next
  case (Cons e evs)
  from Cons.prems(3) obtain t1 o1 o2 where st: "step e t = Some (t1, o1)"
    and ex: "exec evs t1 = Some (t', o2)" and o: "out' = o1 @ o2"
    by (auto split: option.splits)
  from Cons.prems(2) have e: "by_runner i e" and es: "list_all (by_runner i) evs" by simp_all
  from Cons.IH [OF step_in_order [OF Cons.prems(1) e st] es ex]
  have "in_publish_order i s ((ps @ posted [e]) @ posted evs) t' ((out @ o1) @ o2)" .
  moreover have "posted (e # evs) = posted [e] @ posted evs"
    using posted_append [of "[e]" evs] by simp
  ultimately show ?case by (simp add: o)
qed

section \<open>The stream handler, step by step\<close>


lemma recv_cases:
  "recv ch h = Blocked (None, h) \<or> recv ch h = Done (None, h) \<or>
   (\<exists>msg ms. ch < length h \<and> buf (h ! ch) = msg # ms \<and>
      recv ch h = Done (Some msg, h[ch := (h ! ch)\<lparr>buf := ms\<rparr>]))"
  by (auto simp: recv_def split: list.splits)



lemma handler_step_Leaving:
  "handler_step (Leaving st) s =
     (if mu s then Blocked (Leaving (st\<lparr>st_conn := (st_conn st)\<lparr>conn_closed := True\<rparr>\<rparr>), s)
      else Done (Returned (st\<lparr>st_conn := (st_conn st)\<lparr>conn_closed := True\<rparr>\<rparr>),
                 s\<lparr>fanOut := AList.delete (st_idx st) (fanOut s)\<rparr>))"
  by (simp add: handler_step_def logOutput_deferred_def removeListener_def)


lemma wf_handler_step:
  assumes "wf_registry s"
  shows "wf_registry (snd (state_of (handler_step hr s)))"
proof (cases hr)
  case (InLoop st)
  from recv_cases [of "st_ch st" "heap s"]
  consider "recv (st_ch st) (heap s) = Blocked (None, heap s)"
    | "recv (st_ch st) (heap s) = Done (None, heap s)"
    | msg ms where "recv (st_ch st) (heap s)
         = Done (Some msg, (heap s)[st_ch st := (heap s ! st_ch st)\<lparr>buf := ms\<rparr>])"
    by blast
  then show ?thesis
  proof cases
    case 1
    then show ?thesis using assms by (simp add: InLoop handler_step_def logOutput_loop_def)
  next
    case 2
    then show ?thesis using assms by (simp add: InLoop handler_step_def logOutput_loop_def)
  next
    case 3
    obtain e c where p: "push (st_conn st) msg = (e, c)" by (cases "push (st_conn st) msg")
    show ?thesis
      using 3 p wf_buf_update [OF assms, of "st_ch st" ms]
      by (cases e) (simp_all add: InLoop handler_step_def logOutput_loop_def)
  qed
next
  case (Leaving st)
  have "wf_registry (state_of (removeListener (st_idx st) s))"
    using assms by (rule wf_removeListener)
  then show ?thesis
    using assms by (cases "mu s") (simp_all add: Leaving handler_step_Leaving removeListener_def)
next
  case (Returned st)
  then show ?thesis using assms by (simp add: handler_step_def)
qed

section \<open>The claims\<close>

subsection \<open>C1: every queue receives every message once, in the order of the fan-outs\<close>

text \<open>
  C1, as the claim has it, fails in the order: the order in which two messages reach a queue
  is the order in which the goroutines that received them take the mutex. Starting from the
  new server, a GET to \<^verbatim>\<open>/\<close> registers listener 5 and two POSTs publish \<^verbatim>\<open>a\<close> and then
  \<^verbatim>\<open>b\<close>; each request has started a goroutine running \<^verbatim>\<open>run\<close>. The first of them receives
  \<^verbatim>\<open>a\<close>, the second receives \<^verbatim>\<open>b\<close> and fans it out, then the first fans out \<^verbatim>\<open>a\<close>: the
  queue of listener 5, the registry unchanged throughout, holds \<^verbatim>\<open>b\<close> before \<^verbatim>\<open>a\<close>. It
  holds each of the two messages once.
\<close>

theorem two_runners_reorder:
  "exec [Recv 0, Recv 1, Fan 1, Fan 0]
     (snd (state_of (ServeHTTP 7
        (snd (state_of (ServeHTTP 6
           (snd (state_of (ServeHTTP 5 (new_server []) get_index)))
           (post_webhook [] ''a''))))
        (post_webhook [] ''b''))))
   = Some (\<lparr>bearer = [], messages = [], fanOut = [(5, 0)],
            heap = [\<lparr>buf = [''b'', ''a''], closed = False\<rparr>], mu = False,
            runners = [None, None, None]\<rparr>,
           [Fanned 1 ''b'', Fanned 0 ''a''])"
  by (simp add: ServeHTTP_def new_server_def get_index_def post_webhook_def serveIndex_def
      addListener_def webhookReceiver_def step_def runner_recv_def runner_fanout_def
      fanout_def send_def msgBuffer_def w0_def WriteHeader_def)

text \<open>
  C1, amended. The registry is well formed, the mutex free, and nobody adds or removes a
  listener. Take any interleaving of publishes, of the receives and fan-outs of any number
  of goroutines running \<^verbatim>\<open>run\<close>, and of the receives of the stream handlers. Then the registry
  is as it was, and for each of the \<open>N\<close> subscribers the messages its handler took followed
  by those its queue still holds are what the queue held at the start followed by the
  messages fanned out, in the order of the fan-outs, that is the order in which the
  goroutines took the mutex: the same sequence for every subscriber. No message is lost or
  doubled: the messages fanned out, those the goroutines hold and those in the inbound queue
  are, counted with multiplicity, the ones held or queued at the start and the ones
  published since; so once every message is delivered each queue has received exactly the
  \<open>M\<close> published messages, each once. When the receives and fan-outs are those of one
  goroutine \<open>i\<close>, the order of the fan-outs is the order in which the messages were
  published. Last, when every queue has room for the \<open>M\<close> messages of the inbound queue,
  \<^verbatim>\<open>run\<close> on its own does deliver them all: it comes to rest on the empty inbound queue with
  the mutex released, every queue extended by the \<open>M\<close> messages in order.
\<close>

theorem broadcast_in_fanout_order:
  assumes "wf_registry s" and "\<not> mu s"
  shows "(exec evs s = Some (s', out) \<longrightarrow>
            fanOut s' = fanOut s
          \<and> list_all (\<lambda>(idx, ch). taken out idx @ buf (heap s' ! ch)
                                   = buf (heap s ! ch) @ fanned out) (fanOut s)
          \<and> mset (fanned out) + mset (held_msgs (runners s')) + mset (messages s')
              = mset (held_msgs (runners s)) + mset (messages s) + mset (posted evs)
          \<and> (held_msgs (runners s) = [] \<and> held_msgs (runners s') = [] \<and> messages s' = [] \<longrightarrow>
               mset (fanned out) = mset (messages s @ posted evs)
             \<and> length (fanned out) = length (messages s) + length (posted evs))
          \<and> (i < length (runners s) \<and> list_all (by_runner i) evs \<longrightarrow>
               fanned out @ held s' i @ messages s' = held s i @ messages s @ posted evs))
       \<and> (list_all (\<lambda>(idx, ch). length (buf (heap s ! ch)) + length (messages s) \<le> msgBuffer)
             (fanOut s) \<longrightarrow>
            (\<exists>t. run s = Blocked t \<and> messages t = [] \<and> \<not> mu t \<and> fanOut t = fanOut s \<and>
                 list_all (\<lambda>(idx, ch). buf (heap t ! ch) = buf (heap s ! ch) @ messages s)
                   (fanOut s)))"
proof (intro conjI impI)
  assume ex: "exec evs s = Some (s', out)"
  have "delivered_upto s [] s []"
    using assms by (simp add: delivered_upto_def list_all_iff)
  from exec_keeps [OF this ex] have d: "delivered_upto s (posted evs) s' out" by simp
  then show "fanOut s' = fanOut s" by (simp add: delivered_upto_def)
  from d show "list_all (\<lambda>(idx, ch). taken out idx @ buf (heap s' ! ch)
                                   = buf (heap s ! ch) @ fanned out) (fanOut s)"
    by (simp add: delivered_upto_def)
  from d show m: "mset (fanned out) + mset (held_msgs (runners s')) + mset (messages s')
              = mset (held_msgs (runners s)) + mset (messages s) + mset (posted evs)"
    by (simp add: delivered_upto_def)
  {
    assume e: "held_msgs (runners s) = [] \<and> held_msgs (runners s') = [] \<and> messages s' = []"
    with m show "mset (fanned out) = mset (messages s @ posted evs)" by simp
    then have "size (mset (fanned out)) = size (mset (messages s @ posted evs))" by simp
    then show "length (fanned out) = length (messages s) + length (posted evs)" by simp
  }
  {
    assume o: "i < length (runners s) \<and> list_all (by_runner i) evs"
    then have "in_publish_order i s [] s []" by (simp add: in_publish_order_def)
    from exec_in_order [OF this _ ex] o
    have "in_publish_order i s (posted evs) s' out" by simp
    then show "fanned out @ held s' i @ messages s' = held s i @ messages s @ posted evs"
      by (simp add: in_publish_order_def)
  }
next
  assume room: "list_all (\<lambda>(idx, ch). length (buf (heap s ! ch)) + length (messages s) \<le> msgBuffer)
             (fanOut s)"
  from run_delivers [OF assms room] obtain h' where
    h': "run s = Blocked (s\<lparr>messages := [], heap := h'\<rparr>)" "length h' = length (heap s)"
      "\<forall>a < length (heap s). h' ! a =
         (if a \<in> snd ` set (fanOut s)
          then (heap s ! a)\<lparr>buf := buf (heap s ! a) @ messages s\<rparr>
          else heap s ! a)"
    by blast
  have "list_all (\<lambda>(idx, ch). buf (h' ! ch) = buf (heap s ! ch) @ messages s) (fanOut s)"
    unfolding list_all_iff
  proof (intro ballI)
    fix x assume x: "x \<in> set (fanOut s)"
    obtain k c where xc: "x = (k, c)" by (cases x)
    from x assms(1) have "c < length (heap s)"
      by (auto simp: wf_registry_def list_all_iff xc)
    moreover from x have "c \<in> snd ` set (fanOut s)" by (force simp: xc)
    ultimately have "h' ! c = (heap s ! c)\<lparr>buf := buf (heap s ! c) @ messages s\<rparr>"
      using h'(3) by simp
    then show "case x of (idx, ch) \<Rightarrow> buf (h' ! ch) = buf (heap s ! ch) @ messages s"
      by (simp add: xc)
  qed
  with h'(1) assms(2)
  show "\<exists>t. run s = Blocked t \<and> messages t = [] \<and> \<not> mu t \<and> fanOut t = fanOut s \<and>
           list_all (\<lambda>(idx, ch). buf (heap t ! ch) = buf (heap s ! ch) @ messages s) (fanOut s)"
    by simp
qed

text \<open>
  One subscriber and two goroutines that fan out \<^verbatim>\<open>b\<close> before \<^verbatim>\<open>a\<close>: the queue receives the
  two published messages, each once. Two subscribers and one goroutine: two messages are
  queued and a third is published while the goroutine delivers, and the handler of listener
  5 takes one message in between; both queues receive the three in publish order. And
  \<^verbatim>\<open>run\<close> on its own delivers the two queued messages.
\<close>

theorem broadcast_in_fanout_order_witness:
  "wf_registry two_runners \<and> \<not> mu two_runners
   \<and> exec [Recv 0, Recv 1, Fan 1, Fan 0] two_runners
       = Some (two_runners\<lparr>messages := [], heap := [\<lparr>buf = [''b'', ''a''], closed = False\<rparr>]\<rparr>,
               [Fanned 1 ''b'', Fanned 0 ''a''])
   \<and> mset [''b'', ''a''] = mset (messages two_runners @ posted [Recv 0, Recv 1, Fan 1, Fan 0])
   \<and> wf_registry two_listeners \<and> \<not> mu two_listeners
   \<and> exec [Recv 0, Fan 0, Take 5, Post ''c'', Recv 0, Fan 0, Recv 0, Fan 0] two_listeners
       = Some (two_listeners\<lparr>messages := [],
                 heap := [\<lparr>buf = [''a'', ''b'', ''c''], closed = False\<rparr>,
                          \<lparr>buf = [''a'', ''b'', ''c''], closed = False\<rparr>]\<rparr>,
               [Fanned 0 ''a'', Handed 5 ''x'', Fanned 0 ''b'', Fanned 0 ''c''])
   \<and> [''x''] @ [''a'', ''b'', ''c''] = buf (heap two_listeners ! 0) @ [''a'', ''b'', ''c'']
   \<and> [''a'', ''b'', ''c'']
       = messages two_listeners
         @ posted [Recv 0, Fan 0, Take 5, Post ''c'', Recv 0, Fan 0, Recv 0, Fan 0]
   \<and> (\<exists>t. run two_listeners = Blocked t \<and> messages t = [] \<and> \<not> mu t \<and>
          fanOut t = [(5, 0), (7, 1)] \<and>
          buf (heap t ! 0) = [''x'', ''a'', ''b''] \<and> buf (heap t ! 1) = [''a'', ''b''])"
proof -
  have h2: "wf_registry two_runners" "\<not> mu two_runners"
    by (simp_all add: two_runners_def wf_registry_def)
  have e2: "exec [Recv 0, Recv 1, Fan 1, Fan 0] two_runners
       = Some (two_runners\<lparr>messages := [], heap := [\<lparr>buf = [''b'', ''a''], closed = False\<rparr>]\<rparr>,
               [Fanned 1 ''b'', Fanned 0 ''a''])"
    by (simp add: two_runners_def step_def runner_recv_def runner_fanout_def fanout_def
        send_def msgBuffer_def)
  have h: "wf_registry two_listeners" "\<not> mu two_listeners"
    by (simp_all add: two_listeners_def wf_registry_def)
  have e: "exec [Recv 0, Fan 0, Take 5, Post ''c'', Recv 0, Fan 0, Recv 0, Fan 0] two_listeners
       = Some (two_listeners\<lparr>messages := [],
                 heap := [\<lparr>buf = [''a'', ''b'', ''c''], closed = False\<rparr>,
                          \<lparr>buf = [''a'', ''b'', ''c''], closed = False\<rparr>]\<rparr>,
               [Fanned 0 ''a'', Handed 5 ''x'', Fanned 0 ''b'', Fanned 0 ''c''])"
    by (simp add: two_listeners_def step_def runner_recv_def runner_fanout_def fanout_def
        send_def recv_def msgBuffer_def)
  have r: "list_all (\<lambda>(idx, ch). length (buf (heap two_listeners ! ch))
                + length (messages two_listeners) \<le> msgBuffer) (fanOut two_listeners)"
    by (simp add: two_listeners_def msgBuffer_def)
  from broadcast_in_fanout_order [OF h2, where evs = "[Recv 0, Recv 1, Fan 1, Fan 0]"
      and s' = "two_runners\<lparr>messages := [], heap := [\<lparr>buf = [''b'', ''a''], closed = False\<rparr>]\<rparr>"
      and out = "[Fanned 1 ''b'', Fanned 0 ''a'']" and i = 0] e2
  have a: "mset [''b'', ''a''] = mset (messages two_runners @ posted [Recv 0, Recv 1, Fan 1, Fan 0])"
    by (simp add: two_runners_def)
  from broadcast_in_fanout_order [OF h, where i = 0
      and evs = "[Recv 0, Fan 0, Take 5, Post ''c'', Recv 0, Fan 0, Recv 0, Fan 0]"
      and s' = "two_listeners\<lparr>messages := [],
                 heap := [\<lparr>buf = [''a'', ''b'', ''c''], closed = False\<rparr>,
                          \<lparr>buf = [''a'', ''b'', ''c''], closed = False\<rparr>]\<rparr>"
      and out = "[Fanned 0 ''a'', Handed 5 ''x'', Fanned 0 ''b'', Fanned 0 ''c'']"] e r
  have b: "[''x''] @ [''a'', ''b'', ''c''] = buf (heap two_listeners ! 0) @ [''a'', ''b'', ''c'']"
    and c: "[''a'', ''b'', ''c'']
       = messages two_listeners
         @ posted [Recv 0, Fan 0, Take 5, Post ''c'', Recv 0, Fan 0, Recv 0, Fan 0]"
    and d: "\<exists>t. run two_listeners = Blocked t \<and> messages t = [] \<and> \<not> mu t \<and>
          fanOut t = fanOut two_listeners \<and>
          list_all (\<lambda>(idx, ch). buf (heap t ! ch) = buf (heap two_listeners ! ch)
             @ messages two_listeners) (fanOut two_listeners)"
    by (simp_all add: two_listeners_def held_def)
  from d have "\<exists>t. run two_listeners = Blocked t \<and> messages t = [] \<and> \<not> mu t \<and>
          fanOut t = [(5, 0), (7, 1)] \<and>
          buf (heap t ! 0) = [''x'', ''a'', ''b''] \<and> buf (heap t ! 1) = [''a'', ''b'']"
    by (simp add: two_listeners_def)
  with h2 e2 a h e b c show ?thesis by simp
qed

subsection \<open>C2: the fan-out reaches the registry as it is when the lock is taken\<close>

text \<open>
  C2. The fan-out of a message holds the mutex from before the first send until after the
  last, and \<^verbatim>\<open>addListener\<close> and \<^verbatim>\<open>removeListener\<close> take the same mutex. So: the queue of a
  subscriber removed before the fan-out is left as it was by that fan-out, however the
  fan-out ends; a subscriber added after a completed fan-out gets a new queue, not one the
  fan-out wrote to, and the queue is empty; and while a fan-out is suspended half-way, adding
  and removing are suspended too and the registry is the one the fan-out started with.
\<close>

theorem fanout_snapshot:
  assumes "wf_registry s" and "\<not> mu s"
  shows "(map_of (fanOut s) idx = Some ch \<longrightarrow>
            (\<exists>s1. removeListener idx s = Done s1 \<and> map_of (fanOut s1) idx = None \<and>
                  heap (state_of (fanout msg s1)) ! ch = heap s ! ch))
       \<and> (fanout msg s = Done s2 \<longrightarrow>
            (\<exists>s3. addListener now s2 = Done ((now, length (heap s)), s3) \<and>
                  length (heap s) \<notin> snd ` set (fanOut s) \<and>
                  buf (heap s3 ! length (heap s)) = []))
       \<and> (fanout msg s = Blocked s2 \<longrightarrow>
            addListener now s2 = Blocked ((0, 0), s2) \<and> removeListener idx s2 = Blocked s2 \<and>
            fanOut s2 = fanOut s)"
proof (intro conjI impI)
  assume reg: "map_of (fanOut s) idx = Some ch"
  define s1 where "s1 = s\<lparr>fanOut := AList.delete idx (fanOut s)\<rparr>"
  have rm: "removeListener idx s = Done s1"
    using assms(2) by (simp add: removeListener_def s1_def)
  have gone: "map_of (fanOut s1) idx = None" by (simp add: s1_def delete_conv')
  have "ch \<notin> snd ` set (fanOut s1)"
  proof
    assume "ch \<in> snd ` set (fanOut s1)"
    then obtain k where k: "(k, ch) \<in> set (AList.delete idx (fanOut s))"
      by (auto simp: s1_def)
    then have "k \<noteq> idx" "(k, ch) \<in> set (fanOut s)" by (auto simp: AList.delete_eq)
    moreover have "(idx, ch) \<in> set (fanOut s)" using reg by (rule map_of_SomeD)
    moreover have "distinct (map snd (fanOut s))" using assms(1) by (simp add: wf_registry_def)
    ultimately show False using snd_unique by fast
  qed
  then have "heap (state_of (fanout msg s1)) ! ch = heap s ! ch"
    using assms(2) sends_other [of ch "fanOut s1" msg "heap s1"]
    by (simp add: heap_fanout s1_def)
  with rm gone show "\<exists>s1. removeListener idx s = Done s1 \<and> map_of (fanOut s1) idx = None \<and>
                  heap (state_of (fanout msg s1)) ! ch = heap s ! ch"
    by blast
next
  assume f: "fanout msg s = Done s2"
  then have s2: "\<not> mu s2" "length (heap s2) = length (heap s)"
    using assms(2) sends_length [of "fanOut s" msg "heap s"]
    by (auto simp: fanout_def split: outcome.splits)
  have "length (heap s) \<notin> snd ` set (fanOut s)"
    using assms(1) by (auto simp: wf_registry_def list_all_iff)
  then show "\<exists>s3. addListener now s2 = Done ((now, length (heap s)), s3) \<and>
                  length (heap s) \<notin> snd ` set (fanOut s) \<and>
                  buf (heap s3 ! length (heap s)) = []"
    using s2 by (simp add: addListener_def Let_def nth_append)
next
  assume f: "fanout msg s = Blocked s2"
  then have "mu s2" and "fanOut s2 = fanOut s"
    using assms(2) by (auto simp: fanout_def split: outcome.splits)
  then show "addListener now s2 = Blocked ((0, 0), s2)" "removeListener idx s2 = Blocked s2"
    "fanOut s2 = fanOut s"
    by (simp_all add: addListener_def removeListener_def)
qed

text \<open>
  Listener 5 is removed and the message \<^verbatim>\<open>m\<close> fanned out, then a listener is added; and
  nothing can be added while the fan-out waits on the full queue of \<open>full_listener\<close>.
\<close>

theorem fanout_snapshot_witness:
  "wf_registry one_listener \<and> \<not> mu one_listener \<and> map_of (fanOut one_listener) 5 = Some 0
   \<and> (\<exists>s1. removeListener 5 one_listener = Done s1 \<and> map_of (fanOut s1) 5 = None \<and>
           heap (state_of (fanout ''m'' s1)) ! 0 = \<lparr>buf = [''x'', ''y'', ''z''], closed = False\<rparr>)
   \<and> fanout ''m'' one_listener
       = Done (one_listener\<lparr>heap := [\<lparr>buf = [''x'', ''y'', ''z'', ''m''], closed = False\<rparr>]\<rparr>)
   \<and> (\<exists>s3. addListener 9
              (one_listener\<lparr>heap := [\<lparr>buf = [''x'', ''y'', ''z'', ''m''], closed = False\<rparr>]\<rparr>)
             = Done ((9, 1), s3) \<and> buf (heap s3 ! 1) = [])
   \<and> wf_registry full_listener \<and> \<not> mu full_listener
   \<and> fanout ''m'' full_listener = Blocked (full_listener\<lparr>mu := True\<rparr>)
   \<and> addListener 9 (full_listener\<lparr>mu := True\<rparr>) = Blocked ((0, 0), full_listener\<lparr>mu := True\<rparr>)"
proof -
  have h: "wf_registry one_listener" "\<not> mu one_listener"
    by (simp_all add: one_listener_def wf_registry_def)
  have r: "map_of (fanOut one_listener) 5 = Some 0" by (simp add: one_listener_def)
  have f: "fanout ''m'' one_listener
      = Done (one_listener\<lparr>heap := [\<lparr>buf = [''x'', ''y'', ''z'', ''m''], closed = False\<rparr>]\<rparr>)"
    by (simp add: one_listener_def fanout_def send_def msgBuffer_def)
  have g: "wf_registry full_listener" "\<not> mu full_listener"
    by (simp_all add: full_listener_def wf_registry_def)
  have b: "fanout ''m'' full_listener = Blocked (full_listener\<lparr>mu := True\<rparr>)"
    by (simp add: full_listener_def fanout_def send_def msgBuffer_def)
  from fanout_snapshot [OF h, of 5 0 "''m''"
      "one_listener\<lparr>heap := [\<lparr>buf = [''x'', ''y'', ''z'', ''m''], closed = False\<rparr>]\<rparr>" 9]
    fanout_snapshot [OF g, of 5 0 "''m''" "full_listener\<lparr>mu := True\<rparr>" 9]
  show ?thesis using h r f g b by (simp add: one_listener_def)
qed

subsection \<open>C3: one broadcast goroutine per request\<close>

text \<open>
  C3, as the claim has it, fails: \<^verbatim>\<open>ServeHTTP\<close> starts a goroutine running \<^verbatim>\<open>run\<close> for every
  request, and after two requests two of them run.
\<close>

theorem two_requests_two_runners:
  "runners (snd (state_of (ServeHTTP 2
      (snd (state_of (ServeHTTP 1 (new_server []) get_index))) (get_logs ''0''))))
   = [None, None]"
  by (simp add: ServeHTTP_def new_server_def get_index_def get_logs_def serveIndex_def
      addListener_def logOutput_def parseCookie_def ParseInt_def ParseUint_def is_digit_def)

text \<open>
  C3, amended. Every request handled by \<^verbatim>\<open>ServeHTTP\<close>, whatever its path and however its
  handler ends, starts exactly one more goroutine running \<^verbatim>\<open>run\<close>, and \<^verbatim>\<open>run\<close> never
  returns; there is no guard that starts it once. A message taken from the inbound queue
  is taken by one runner only: the receive removes it from the queue and hands it to that
  runner.
\<close>

theorem ServeHTTP_starts_runner:
  "runners (snd (state_of (ServeHTTP now s r))) = runners s @ [None]
   \<and> run s \<noteq> Done t
   \<and> (runner_recv i s = Some s' \<longrightarrow>
        (\<exists>msg. messages s = msg # messages s' \<and> runners s ! i = None \<and>
               runners s' = (runners s)[i := Some msg]))"
  by (auto simp: ServeHTTP_def Let_def runners_webhookReceiver runners_serveIndex
      runners_logOutput runner_recv_def run_never_returns split: if_splits list.splits)

theorem ServeHTTP_starts_runner_witness:
  "runner_recv 0 two_listeners = Some (two_listeners\<lparr>messages := [''b''], runners := [Some ''a'']\<rparr>)
   \<and> runners (snd (state_of (ServeHTTP 1 two_listeners get_index))) = [None, None]
   \<and> (\<exists>msg. messages two_listeners = msg # [''b''] \<and> runners two_listeners ! 0 = None)"
proof -
  have h: "runner_recv 0 two_listeners
      = Some (two_listeners\<lparr>messages := [''b''], runners := [Some ''a'']\<rparr>)"
    by (simp add: runner_recv_def two_listeners_def)
  from ServeHTTP_starts_runner [where now = 1 and s = two_listeners and r = get_index and i = 0
      and s' = "two_listeners\<lparr>messages := [''b''], runners := [Some ''a'']\<rparr>"] h
  show ?thesis by (simp add: two_listeners_def)
qed

subsection \<open>C4: the identifier is the clock reading\<close>

text \<open>
  C4, as the claim has it, fails: the identifier is the clock reading and is not compared
  with the keys of the map, and two readings can be equal (a clock of coarse resolution, a
  wall clock set back). With listener 5 registered and the clock reading 5 the call returns
  5, a key of the registry at that moment.
\<close>

theorem addListener_collision:
  "addListener 5 one_listener =
     Done ((5, 1), one_listener\<lparr>heap := heap one_listener @ [\<lparr>buf = [], closed = False\<rparr>],
                                fanOut := [(5, 1)]\<rparr>)
   \<and> 5 \<in> fst ` set (fanOut one_listener)"
  by (simp add: addListener_def one_listener_def)

text \<open>
  C4, amended. \<^verbatim>\<open>addListener\<close> returns the clock reading as the identifier, bound in the
  registry to a new, empty, open queue, and leaves every other key as it was; the keys of
  the registry stay pairwise different. Whenever the clock reading is not a key of the
  registry at that moment, the identifier is fresh and the registry has one entry more.
\<close>

theorem addListener_identifier:
  assumes "\<not> mu s" and "distinct (map fst (fanOut s))"
  shows "\<exists>s'. addListener now s = Done ((now, length (heap s)), s') \<and>
           map_of (fanOut s') now = Some (length (heap s)) \<and>
           heap s' ! length (heap s) = \<lparr>buf = [], closed = False\<rparr> \<and>
           distinct (map fst (fanOut s')) \<and>
           (\<forall>k. k \<noteq> now \<longrightarrow> map_of (fanOut s') k = map_of (fanOut s) k) \<and>
           (now \<notin> fst ` set (fanOut s) \<longrightarrow>
              length (fanOut s') = Suc (length (fanOut s)) \<and>
              fst ` set (fanOut s') = insert now (fst ` set (fanOut s)))"
  using assms
  by (simp add: addListener_def Let_def update_conv' distinct_update length_update dom_update)

theorem addListener_identifier_witness:
  "\<not> mu one_listener \<and> distinct (map fst (fanOut one_listener))
   \<and> (\<exists>s'. addListener 9 one_listener = Done ((9, 1), s') \<and> map_of (fanOut s') 9 = Some 1 \<and>
            map_of (fanOut s') 5 = Some 0 \<and> length (fanOut s') = 2)"
proof -
  have h: "\<not> mu one_listener" "distinct (map fst (fanOut one_listener))"
    by (simp_all add: one_listener_def)
  from addListener_identifier [OF h, of 9] show ?thesis
    using h by (auto simp: one_listener_def)
qed

subsection \<open>C5: the bearer check\<close>

text \<open>
  C5. With a bearer token configured, a POST to \<^verbatim>\<open>/webhook\<close> whose \<^verbatim>\<open>Authorization\<close> header
  is not the word \<^verbatim>\<open>bearer\<close> in any case, one space and the configured token is answered
  401 and nothing is enqueued; this covers the wrong scheme, the wrong token and the absent
  header (an empty header value). A request whose header is of that form is not answered
  401, and, its body read and the inbound queue not full, it is answered 200 with the body
  enqueued: then the answer is 200 exactly when the header is of that form.
\<close>

theorem webhook_bearer_check:
  assumes "Method r = ''POST''" and "bearer s \<noteq> []"
  shows "(\<not> is_bearer_header (bearer s) (authorization r) \<longrightarrow>
            webhookReceiver s r = Done (WriteHeader 401 w0, s) \<and>
            status_code (WriteHeader 401 w0) = 401)
       \<and> (authorization r = [] \<longrightarrow> \<not> is_bearer_header (bearer s) (authorization r))
       \<and> (is_bearer_header (bearer s) (authorization r) \<longrightarrow>
            status_code (fst (state_of (webhookReceiver s r))) \<noteq> 401 \<and>
            (body r = Some b \<and> length (messages s) < msgBuffer \<longrightarrow>
               webhookReceiver s r = Done (w0, s\<lparr>messages := messages s @ [b]\<rparr>) \<and>
               status_code w0 = 200))
       \<and> (body r = Some b \<and> length (messages s) < msgBuffer \<longrightarrow>
            (status_code (fst (state_of (webhookReceiver s r))) = 200
               \<longleftrightarrow> is_bearer_header (bearer s) (authorization r)))"
  using assms
  by (auto simp: webhookReceiver_def bearer_rejected_iff status_code_WriteHeader status_code_w0
      is_bearer_header_def split: option.splits)

text \<open>The token \<^verbatim>\<open>secret\<close>: a header in mixed case passes, a wrong token and no header do not.\<close>

theorem webhook_bearer_check_witness:
  "webhookReceiver (new_server ''secret'') (post_webhook ''bEARER secret'' ''hello'')
     = Done (w0, (new_server ''secret'')\<lparr>messages := [''hello'']\<rparr>)
   \<and> webhookReceiver (new_server ''secret'') (post_webhook ''Bearer wrong'' ''hello'')
     = Done (WriteHeader 401 w0, new_server ''secret'')
   \<and> webhookReceiver (new_server ''secret'') (post_webhook [] ''hello'')
     = Done (WriteHeader 401 w0, new_server ''secret'')"
proof -
  have h1: "is_bearer_header ''secret'' ''bEARER secret''" by code_simp
  have h2: "\<not> is_bearer_header ''secret'' ''Bearer wrong''" by code_simp
  from webhook_bearer_check [of "post_webhook ''bEARER secret'' ''hello''" "new_server ''secret''" "''hello''"]
    webhook_bearer_check [of "post_webhook ''Bearer wrong'' ''hello''" "new_server ''secret''"]
    webhook_bearer_check [of "post_webhook [] ''hello''" "new_server ''secret''"]
    h1 h2
  show ?thesis by (simp add: post_webhook_def new_server_def msgBuffer_def)
qed

subsection \<open>C6: an accepted webhook is enqueued once, whole\<close>

text \<open>
  C6. A request to \<^verbatim>\<open>/webhook\<close> that is not a POST is answered 405. A POST that passes the
  auth check (no token configured, or the header as C5 asks) and whose body is read whole
  is answered 200, and the body is appended, once, to the inbound queue; no subscriber
  queue and no registry entry is read or written, so this is the same with and without
  subscribers. The handler returns at once when the inbound queue has room; when the queue
  is at its capacity the send keeps the handler suspended until a runner has received a
  message from the queue, and then it returns with the same result.
\<close>

theorem webhook_enqueues:
  "(Method r \<noteq> ''POST'' \<longrightarrow>
      webhookReceiver s r = Done (WriteHeader 405 w0, s) \<and> status_code (WriteHeader 405 w0) = 405)
   \<and> (Method r = ''POST'' \<and> (bearer s = [] \<or> is_bearer_header (bearer s) (authorization r))
        \<and> body r = Some b \<and> length (messages s) \<le> msgBuffer \<longrightarrow>
        status_code w0 = 200 \<and>
        (length (messages s) < msgBuffer \<longrightarrow>
           webhookReceiver s r = Done (w0, s\<lparr>messages := messages s @ [b]\<rparr>)) \<and>
        (length (messages s) = msgBuffer \<longrightarrow>
           webhookReceiver s r = Blocked (w0, s) \<and>
           (runner_recv i s = Some s1 \<longrightarrow>
              webhookReceiver s1 r = Done (w0, s1\<lparr>messages := messages s1 @ [b]\<rparr>))))"
proof (intro conjI impI)
  assume "Method r \<noteq> ''POST''"
  then show "webhookReceiver s r = Done (WriteHeader 405 w0, s)"
    by (simp add: webhookReceiver_def)
next
  show "status_code (WriteHeader 405 w0) = 405" by (rule status_code_WriteHeader)
next
  show "status_code w0 = 200" by (rule status_code_w0)
next
  assume h: "Method r = ''POST'' \<and> (bearer s = [] \<or> is_bearer_header (bearer s) (authorization r))
        \<and> body r = Some b \<and> length (messages s) \<le> msgBuffer"
    and "length (messages s) < msgBuffer"
  then show "webhookReceiver s r = Done (w0, s\<lparr>messages := messages s @ [b]\<rparr>)"
    by (auto simp: webhookReceiver_def bearer_rejected_iff)
next
  assume h: "Method r = ''POST'' \<and> (bearer s = [] \<or> is_bearer_header (bearer s) (authorization r))
        \<and> body r = Some b \<and> length (messages s) \<le> msgBuffer"
    and "length (messages s) = msgBuffer"
  then show "webhookReceiver s r = Blocked (w0, s)"
    by (auto simp: webhookReceiver_def bearer_rejected_iff)
next
  assume h: "Method r = ''POST'' \<and> (bearer s = [] \<or> is_bearer_header (bearer s) (authorization r))
        \<and> body r = Some b \<and> length (messages s) \<le> msgBuffer"
    and rc: "runner_recv i s = Some s1"
  from h rc have "length (messages s1) < msgBuffer" "bearer s1 = bearer s"
    using runner_recv_room by blast+
  with h show "webhookReceiver s1 r = Done (w0, s1\<lparr>messages := messages s1 @ [b]\<rparr>)"
    by (auto simp: webhookReceiver_def bearer_rejected_iff)
qed

text \<open>
  Without subscribers, with one subscriber, with a GET, and with the inbound queue full
  before and after a runner has received from it.
\<close>

theorem webhook_enqueues_witness:
  "webhookReceiver (new_server []) (post_webhook [] ''hello'')
     = Done (w0, (new_server [])\<lparr>messages := [''hello'']\<rparr>)
   \<and> webhookReceiver one_listener (post_webhook [] ''world'')
     = Done (w0, one_listener\<lparr>messages := [''world'']\<rparr>)
   \<and> webhookReceiver one_listener ((post_webhook [] ''world'')\<lparr>Method := ''GET''\<rparr>)
     = Done (WriteHeader 405 w0, one_listener)
   \<and> webhookReceiver (one_listener\<lparr>messages := replicate 1000 ''m'', runners := [None]\<rparr>)
       (post_webhook [] ''late'')
     = Blocked (w0, one_listener\<lparr>messages := replicate 1000 ''m'', runners := [None]\<rparr>)
   \<and> webhookReceiver (one_listener\<lparr>messages := replicate 999 ''m'', runners := [Some ''m'']\<rparr>)
       (post_webhook [] ''late'')
     = Done (w0, one_listener\<lparr>messages := replicate 999 ''m'' @ [''late''],
                              runners := [Some ''m'']\<rparr>)"
proof -
  have rep: "replicate 1000 ''m'' = ''m'' # replicate 999 ''m''"
    using replicate_Suc [of 999 "''m''"] by simp
  have rc: "runner_recv 0 (one_listener\<lparr>messages := replicate 1000 ''m'', runners := [None]\<rparr>)
      = Some (one_listener\<lparr>messages := replicate 999 ''m'', runners := [Some ''m'']\<rparr>)"
    by (simp add: runner_recv_def rep)
  from webhook_enqueues [of "post_webhook [] ''hello''" "new_server []" "''hello''"]
    webhook_enqueues [of "post_webhook [] ''world''" one_listener "''world''"]
    webhook_enqueues [of "(post_webhook [] ''world'')\<lparr>Method := ''GET''\<rparr>" one_listener]
    webhook_enqueues [of "post_webhook [] ''late''"
      "one_listener\<lparr>messages := replicate 1000 ''m'', runners := [None]\<rparr>" "''late''" 0
      "one_listener\<lparr>messages := replicate 999 ''m'', runners := [Some ''m'']\<rparr>"]
    rc
  show ?thesis by (simp add: post_webhook_def new_server_def one_listener_def msgBuffer_def)
qed

subsection \<open>C7: the clean-up when the delivery loop is left\<close>




subsection \<open>C8: what \<^verbatim>\<open>/logs\<close> rejects\<close>

text \<open>
  C8, as the claim has it, fails for the cookie value \<^verbatim>\<open>0\<close>: it is of valid decimal format
  and its identifier maps to no entry of the new server's registry, and the answer is 401,
  not 400.
\<close>

theorem logs_cookie_zero:
  "ParseInt ''0'' = Inr 0
   \<and> map_of (fanOut (new_server [])) 0 = None
   \<and> logOutput (new_server []) (get_logs ''0'') = Done (WriteHeader 401 w0, new_server [])
   \<and> status_code (WriteHeader 401 w0) = 401"
  by (simp add: logOutput_def get_logs_def parseCookie_def ParseInt_def ParseUint_def is_digit_def
      new_server_def status_code_WriteHeader)

text \<open>
  C8, amended. A GET to \<^verbatim>\<open>/logs\<close> with no \<^verbatim>\<open>idx\<close> cookie, or with one whose value is not a
  decimal 64-bit integer, is answered 401. One whose value is a decimal 64-bit integer other
  than 0 that maps to no registry entry is answered 400, once the handler has the registry
  lock. In both cases the server, and so the registry, is left as it was: no entry is made.
\<close>

theorem logs_rejections:
  assumes "Method r = ''GET''"
  shows "(cookie_idx r = Inl ErrNoCookie \<or> (cookie_idx r = Inr v \<and> ParseInt v = Inl e) \<longrightarrow>
            logOutput s r = Done (WriteHeader 401 w0, s))
       \<and> (cookie_idx r = Inr v \<and> ParseInt v = Inr idx \<and> idx \<noteq> 0 \<and>
            map_of (fanOut s) idx = None \<and> \<not> mu s \<longrightarrow>
            logOutput s r = Done (WriteHeader 400 w0, s))
       \<and> status_code (WriteHeader 401 w0) = 401 \<and> status_code (WriteHeader 400 w0) = 400"
  using assms
  by (auto simp: logOutput_def parseCookie_def getListener_def status_code_WriteHeader)

theorem logs_rejections_witness:
  "logOutput one_listener ((get_logs [])\<lparr>cookie_idx := Inl ErrNoCookie\<rparr>)
     = Done (WriteHeader 401 w0, one_listener)
   \<and> logOutput one_listener (get_logs ''5x'') = Done (WriteHeader 401 w0, one_listener)
   \<and> logOutput one_listener (get_logs ''7'') = Done (WriteHeader 400 w0, one_listener)"
proof -
  have p1: "ParseInt ''5x'' = Inl ErrSyntax"
    by (simp add: ParseInt_def ParseUint_def is_digit_def)
  have p2: "ParseInt ''7'' = Inr 7"
    by (simp add: ParseInt_def ParseUint_def is_digit_def)
  from logs_rejections [where r = "(get_logs [])\<lparr>cookie_idx := Inl ErrNoCookie\<rparr>"
        and s = one_listener]
    logs_rejections [where r = "get_logs ''5x''" and v = "''5x''" and e = ErrSyntax
        and s = one_listener]
    logs_rejections [where r = "get_logs ''7''" and v = "''7''" and idx = 7 and s = one_listener]
    p1 p2
  show ?thesis by (simp add: get_logs_def one_listener_def)
qed

subsection \<open>C9: sessions made by the entry page\<close>




subsection \<open>C10: the identifier 0 is no session\<close>

text \<open>
  C10. \<^verbatim>\<open>parseCookie\<close> gives 0 for a nil cookie and for every value that \<^verbatim>\<open>ParseInt\<close> rejects,
  and for the value \<^verbatim>\<open>0\<close>, which it accepts. A GET to \<^verbatim>\<open>/logs\<close> whose cookie value parses to 0
  is answered 401 with the server left as it was, whatever the registry holds and whether
  or not the mutex is free; the answer is never 400.
\<close>

theorem logs_zero_is_unauthorized:
  "parseCookie None = 0
   \<and> (ParseInt v = Inl e \<longrightarrow> parseCookie (Some v) = 0)
   \<and> ParseInt ''0'' = Inr 0 \<and> parseCookie (Some ''0'') = 0
   \<and> (Method r = ''GET'' \<and> cookie_idx r = Inr v \<and> parseCookie (Some v) = 0 \<longrightarrow>
        logOutput s r = Done (WriteHeader 401 w0, s) \<and> status_code (WriteHeader 401 w0) = 401)"
  by (simp add: parseCookie_def ParseInt_def ParseUint_def is_digit_def logOutput_def
      status_code_WriteHeader)

text \<open>A registry that has an entry under the key 0, and the cookies \<^verbatim>\<open>0\<close> and \<^verbatim>\<open>abc\<close>.\<close>

theorem logs_zero_is_unauthorized_witness:
  "ParseInt ''abc'' = Inl ErrSyntax \<and> parseCookie (Some ''abc'') = 0
   \<and> map_of (fanOut (one_listener\<lparr>fanOut := [(0, 0)]\<rparr>)) 0 = Some 0
   \<and> logOutput (one_listener\<lparr>fanOut := [(0, 0)]\<rparr>) (get_logs ''0'')
       = Done (WriteHeader 401 w0, one_listener\<lparr>fanOut := [(0, 0)]\<rparr>)
   \<and> logOutput (one_listener\<lparr>fanOut := [(0, 0)]\<rparr>) (get_logs ''abc'')
       = Done (WriteHeader 401 w0, one_listener\<lparr>fanOut := [(0, 0)]\<rparr>)"
proof -
  have p: "ParseInt ''abc'' = Inl ErrSyntax"
    by (simp add: ParseInt_def ParseUint_def is_digit_def)
  from logs_zero_is_unauthorized [of "''abc''" ErrSyntax "get_logs ''abc''"
      "one_listener\<lparr>fanOut := [(0, 0)]\<rparr>"]
    logs_zero_is_unauthorized [of "''0''" _ "get_logs ''0''" "one_listener\<lparr>fanOut := [(0, 0)]\<rparr>"]
    p
  show ?thesis by (simp add: get_logs_def one_listener_def)
qed

end
